theory Spec2Isabelle
  imports Main "HOL-Library.Multiset"
begin

section \<open>Data model\<close>

text \<open>
  \<^verbatim>\<open>base::BSTNode<T, N>\<close> holds \<^verbatim>\<open>key\<close>, \<^verbatim>\<open>left\<close> and \<^verbatim>\<open>right\<close>;
  \<^verbatim>\<open>base::AVLNode<T, N>\<close> adds \<^verbatim>\<open>int height = 1\<close>.  The tree classes are templates
  over the node type, so the node is modelled once, with a parameter \<open>'h\<close> for what the
  derived node adds: \<open>unit\<close> for \<^verbatim>\<open>BSTNode\<close>, \<open>int\<close> (the cached height) for
  \<^verbatim>\<open>AVLNode\<close>.  \<open>Node l k h r\<close> is the node with left child \<open>l\<close>, key \<open>k\<close>,
  addition \<open>h\<close> and right child \<open>r\<close>.  A node pointer is a value of the type, \<^verbatim>\<open>nullptr\<close> is \<open>Null\<close>; every
  node has one owner, so a pointer is modelled by the subtree it owns.  A tree object
  holds nothing but \<^verbatim>\<open>root\<close> and is modelled by its root.

  The key type \<open>'a\<close> is a linear order (the comparisons \<^verbatim>\<open><\<close>, \<^verbatim>\<open>>\<close>, \<^verbatim>\<open>==\<close> of a
  strictly totally ordered \<^verbatim>\<open>T\<close>).  The cached height is an unbounded \<open>int\<close>: a cached
  height never exceeds the number of nodes the tree has held, far below the range of a
  C++ \<^verbatim>\<open>int\<close>.

  Dereferencing \<^verbatim>\<open>nullptr\<close> has no defined result in the source; a function that can
  do so returns an \<open>option\<close>, with \<open>None\<close> for that dereference.
\<close>

datatype ('a, 'h) node =
    Null
  | Node "('a, 'h) node" 'a 'h "('a, 'h) node"

type_synonym 'a BSTNode = "('a, unit) node"
type_synonym 'a AVLNode = "('a, int) node"

datatype eRemove = COPY | FUSION

datatype eOrder = INORDER | PREORDER | POSTORDER


section \<open>BSTree\<close>

text \<open>\<^verbatim>\<open>Tree::isEmpty\<close>: \<^verbatim>\<open>root == nullptr\<close>.\<close>

definition isEmpty :: "('a, 'h) node \<Rightarrow> bool" where
  "isEmpty root = (root = Null)"

text \<open>
  \<^verbatim>\<open>BSTree::destroy\<close> deletes the left subtree, the right subtree, then the node; the
  model returns the keys of the deleted nodes in the order of deletion.  \<^verbatim>\<open>clear\<close> calls
  it and resets the root.
\<close>

fun destroy :: "('a, 'h) node \<Rightarrow> 'a list" where
  "destroy Null = []"
| "destroy (Node l k h r) = destroy l @ destroy r @ [k]"

definition clear :: "('a, 'h) node \<Rightarrow> ('a, 'h) node" where
  "clear root = Null"

text \<open>\<^verbatim>\<open>BSTree::get(Node*, T&)\<close>; the returned pointer is modelled by the key it points to.\<close>

fun get :: "('a::linorder, 'h) node \<Rightarrow> 'a \<Rightarrow> 'a option" where
  "get Null key = None"
| "get (Node l k h r) key =
     (if key < k then get l key
      else if key > k then get r key
      else Some k)"

text \<open>
  \<^verbatim>\<open>getMax\<close> and \<^verbatim>\<open>getMin\<close>: the entry test \<^verbatim>\<open>root == nullptr\<close> is the \<open>Null\<close>
  equation, the loop \<^verbatim>\<open>while (max->right != nullptr) max = max->right\<close> is the recursion.
\<close>

fun getMax :: "('a, 'h) node \<Rightarrow> 'a option" where
  "getMax Null = None"
| "getMax (Node l k h r) = (if r \<noteq> Null then getMax r else Some k)"

fun getMin :: "('a, 'h) node \<Rightarrow> 'a option" where
  "getMin Null = None"
| "getMin (Node l k h r) = (if l \<noteq> Null then getMin l else Some k)"

text \<open>
  \<^verbatim>\<open>BSTree::insert(Node*&, T&)\<close>.  The slot passed by reference is returned updated,
  next to the boolean result.
\<close>

fun BSTree_insert :: "'a::linorder BSTNode \<Rightarrow> 'a \<Rightarrow> bool \<times> 'a BSTNode" where
  "BSTree_insert Null key = (True, Node Null key () Null)"
| "BSTree_insert (Node l k h r) key =
     (if key < k then
        (case BSTree_insert l key of (ok, l') \<Rightarrow> (ok, Node l' k h r))
      else if key > k then
        (case BSTree_insert r key of (ok, r') \<Rightarrow> (ok, Node l k h r'))
      else (False, Node l k h r))"

text \<open>
  \<^verbatim>\<open>findMax(Node*& root)\<close> returns a reference to the slot that holds the rightmost
  node: \<^verbatim>\<open>root->right ? findMax(root->right) : root\<close>.  The reference is modelled by two
  functions that walk the same path: \<open>findMax\<close> reads the slot (the node it points to;
  \<open>None\<close> when \<^verbatim>\<open>root\<close> is null, which the source dereferences), and
  \<open>findMax_assign root v\<close> is the root after \<open>v\<close> has been stored through the slot.
  Likewise \<^verbatim>\<open>findMin\<close>.
\<close>

fun findMax :: "('a, 'h) node \<Rightarrow> ('a, 'h) node option" where
  "findMax Null = None"
| "findMax (Node l k h r) = (if r \<noteq> Null then findMax r else Some (Node l k h r))"

fun findMax_assign :: "('a, 'h) node \<Rightarrow> ('a, 'h) node \<Rightarrow> ('a, 'h) node" where
  "findMax_assign Null v = v"
| "findMax_assign (Node l k h r) v =
     (if r \<noteq> Null then Node l k h (findMax_assign r v) else v)"

fun findMin :: "('a, 'h) node \<Rightarrow> ('a, 'h) node option" where
  "findMin Null = None"
| "findMin (Node l k h r) = (if l \<noteq> Null then findMin l else Some (Node l k h r))"

fun findMin_assign :: "('a, 'h) node \<Rightarrow> ('a, 'h) node \<Rightarrow> ('a, 'h) node" where
  "findMin_assign Null v = v"
| "findMin_assign (Node l k h r) v =
     (if l \<noteq> Null then Node (findMin_assign l v) k h r else v)"

text \<open>
  \<^verbatim>\<open>BSTree::removeByCopy(Node*&, T&)\<close>: the result is the extracted key (\<open>None\<close> for
  the null \<^verbatim>\<open>unique_ptr\<close>) and the updated slot.  At the match, with a left subtree,
  \<^verbatim>\<open>max = findMax(node->left)\<close>, the node takes \<^verbatim>\<open>max->key\<close>, and the slot \<^verbatim>\<open>max\<close>
  takes \<^verbatim>\<open>max->left\<close>; without one the slot \<^verbatim>\<open>node\<close> takes \<^verbatim>\<open>node->right\<close>.
\<close>

fun removeByCopy ::
  "('a::linorder, 'h) node \<Rightarrow> 'a \<Rightarrow> ('a option \<times> ('a, 'h) node) option" where
  "removeByCopy Null key = Some (None, Null)"
| "removeByCopy (Node l k h r) key =
     (if k > key then
        (case removeByCopy l key of
           None \<Rightarrow> None
         | Some (keyptr, l') \<Rightarrow> Some (keyptr, Node l' k h r))
      else if k < key then
        (case removeByCopy r key of
           None \<Rightarrow> None
         | Some (keyptr, r') \<Rightarrow> Some (keyptr, Node l k h r'))
      else if l \<noteq> Null then
        (case findMax l of
           Some (Node ml mk mh mr) \<Rightarrow> Some (Some k, Node (findMax_assign l ml) mk h r)
         | _ \<Rightarrow> None)
      else Some (Some k, r))"

text \<open>
  \<^verbatim>\<open>BSTree::removeByFusion(Node*&, T&)\<close>: at the match, with a left subtree,
  \<^verbatim>\<open>findMax(node->left)->right = node->right\<close> and the slot takes \<^verbatim>\<open>node->left\<close>;
  without one the slot takes \<^verbatim>\<open>node->right\<close>.
\<close>

fun removeByFusion ::
  "('a::linorder, 'h) node \<Rightarrow> 'a \<Rightarrow> ('a option \<times> ('a, 'h) node) option" where
  "removeByFusion Null key = Some (None, Null)"
| "removeByFusion (Node l k h r) key =
     (if k > key then
        (case removeByFusion l key of
           None \<Rightarrow> None
         | Some (keyptr, l') \<Rightarrow> Some (keyptr, Node l' k h r))
      else if k < key then
        (case removeByFusion r key of
           None \<Rightarrow> None
         | Some (keyptr, r') \<Rightarrow> Some (keyptr, Node l k h r'))
      else if l \<noteq> Null then
        (case findMax l of
           Some (Node ml mk mh mr) \<Rightarrow> Some (Some k, findMax_assign l (Node ml mk mh r))
         | _ \<Rightarrow> None)
      else Some (Some k, r))"

text \<open>\<^verbatim>\<open>BSTree::remove(T key, eRemove mode)\<close> and the default \<^verbatim>\<open>remove(T key)\<close>.\<close>

fun BSTree_remove_mode ::
  "('a::linorder, 'h) node \<Rightarrow> 'a \<Rightarrow> eRemove \<Rightarrow> ('a option \<times> ('a, 'h) node) option" where
  "BSTree_remove_mode root key COPY = removeByCopy root key"
| "BSTree_remove_mode root key FUSION = removeByFusion root key"

definition BSTree_remove ::
  "('a::linorder, 'h) node \<Rightarrow> 'a \<Rightarrow> ('a option \<times> ('a, 'h) node) option" where
  "BSTree_remove root key = BSTree_remove_mode root key COPY"

text \<open>
  \<^verbatim>\<open>BSTree::removeMax\<close>: \<^verbatim>\<open>max = findMax(root)\<close>, then
  \<^verbatim>\<open>removeByFusion(max, max->key)\<close> runs on that slot, and only on it.  Likewise
  \<^verbatim>\<open>removeMin\<close>.
\<close>

definition BSTree_removeMax ::
  "('a::linorder, 'h) node \<Rightarrow> ('a option \<times> ('a, 'h) node) option" where
  "BSTree_removeMax root =
     (if root = Null then Some (None, root)
      else
        (case findMax root of
           Some (Node ml mk mh mr) \<Rightarrow>
             (case removeByFusion (Node ml mk mh mr) mk of
                None \<Rightarrow> None
              | Some (keyptr, max') \<Rightarrow> Some (keyptr, findMax_assign root max'))
         | _ \<Rightarrow> None))"

definition BSTree_removeMin ::
  "('a::linorder, 'h) node \<Rightarrow> ('a option \<times> ('a, 'h) node) option" where
  "BSTree_removeMin root =
     (if root = Null then Some (None, root)
      else
        (case findMin root of
           Some (Node ml mk mh mr) \<Rightarrow>
             (case removeByFusion (Node ml mk mh mr) mk of
                None \<Rightarrow> None
              | Some (keyptr, min') \<Rightarrow> Some (keyptr, findMin_assign root min'))
         | _ \<Rightarrow> None))"

text \<open>The traversals print the keys; the model returns them as a list.\<close>

fun inorder :: "('a, 'h) node \<Rightarrow> 'a list" where
  "inorder Null = []"
| "inorder (Node l k h r) = inorder l @ [k] @ inorder r"

fun preorder :: "('a, 'h) node \<Rightarrow> 'a list" where
  "preorder Null = []"
| "preorder (Node l k h r) = [k] @ preorder l @ preorder r"

fun postorder :: "('a, 'h) node \<Rightarrow> 'a list" where
  "postorder Null = []"
| "postorder (Node l k h r) = postorder l @ postorder r @ [k]"

fun print :: "('a, 'h) node \<Rightarrow> eOrder \<Rightarrow> 'a list" where
  "print root INORDER = inorder root"
| "print root PREORDER = preorder root"
| "print root POSTORDER = postorder root"


section \<open>AVLTree\<close>

text \<open>The idiom \<^verbatim>\<open>p ? p->height : 0\<close> of \<^verbatim>\<open>updateHeight\<close> and \<^verbatim>\<open>bFactor\<close>.\<close>

fun height_or_0 :: "'a AVLNode \<Rightarrow> int" where
  "height_or_0 Null = 0"
| "height_or_0 (Node l k h r) = h"

text \<open>\<^verbatim>\<open>AVLNode::updateHeight\<close>, on the node \<^verbatim>\<open>this\<close>.\<close>

fun updateHeight :: "'a AVLNode \<Rightarrow> 'a AVLNode option" where
  "updateHeight Null = None"
| "updateHeight (Node l k h r) =
     Some (Node l k ((if height_or_0 l > height_or_0 r then height_or_0 l else height_or_0 r) + 1) r)"

text \<open>\<^verbatim>\<open>AVLTree::bFactor(Node *node)\<close> dereferences \<^verbatim>\<open>node\<close>.\<close>

fun bFactor :: "'a AVLNode \<Rightarrow> int option" where
  "bFactor Null = None"
| "bFactor (Node l k h r) = Some (height_or_0 l - height_or_0 r)"

text \<open>
  \<^verbatim>\<open>rotateLeft(Node*& node)\<close> dereferences \<^verbatim>\<open>node\<close> and \<^verbatim>\<open>node->right\<close>: the old
  right child becomes the root, the old root its left child with the displaced
  grandchild as right subtree; the heights of the old root, then of the new one, are
  recomputed.  \<^verbatim>\<open>rotateRight\<close> is the mirror image.
\<close>

fun rotateLeft :: "'a AVLNode \<Rightarrow> 'a AVLNode option" where
  "rotateLeft (Node l k h (Node rl rk rh rr)) =
     (case updateHeight (Node l k h rl) of
        None \<Rightarrow> None
      | Some n \<Rightarrow> updateHeight (Node n rk rh rr))"
| "rotateLeft _ = None"

fun rotateRight :: "'a AVLNode \<Rightarrow> 'a AVLNode option" where
  "rotateRight (Node (Node ll lk lh lr) k h r) =
     (case updateHeight (Node lr k h r) of
        None \<Rightarrow> None
      | Some n \<Rightarrow> updateHeight (Node ll lk lh n))"
| "rotateRight _ = None"

text \<open>
  \<^verbatim>\<open>AVLTree::balance(Node*& node)\<close>: the height is recomputed, then a balance factor
  of \<open>2\<close> rotates right (after rotating the left child left when its factor is
  negative), a factor of \<open>-2\<close> rotates left (after rotating the right child right when
  its factor is positive).
\<close>

fun balance :: "'a AVLNode \<Rightarrow> 'a AVLNode option" where
  "balance node =
     (case updateHeight node of
        Some (Node l k h r) \<Rightarrow>
          (case bFactor (Node l k h r) of
             None \<Rightarrow> None
           | Some bf \<Rightarrow>
               if bf = 2 then
                 (case bFactor l of
                    None \<Rightarrow> None
                  | Some lbf \<Rightarrow>
                      if lbf < 0 then
                        (case rotateLeft l of
                           None \<Rightarrow> None
                         | Some l' \<Rightarrow> rotateRight (Node l' k h r))
                      else rotateRight (Node l k h r))
               else if bf = - 2 then
                 (case bFactor r of
                    None \<Rightarrow> None
                  | Some rbf \<Rightarrow>
                      if rbf > 0 then
                        (case rotateRight r of
                           None \<Rightarrow> None
                         | Some r' \<Rightarrow> rotateLeft (Node l k h r'))
                      else rotateLeft (Node l k h r))
               else Some (Node l k h r))
      | _ \<Rightarrow> None)"

text \<open>
  \<^verbatim>\<open>AVLTree::insert(Node*&, T&)\<close>: a new node has height \<open>1\<close>; a frame whose recursive
  call returned \<^verbatim>\<open>false\<close> returns at once, the others call \<^verbatim>\<open>balance\<close>.
\<close>

fun AVLTree_insert :: "'a::linorder AVLNode \<Rightarrow> 'a \<Rightarrow> (bool \<times> 'a AVLNode) option" where
  "AVLTree_insert Null key = Some (True, Node Null key 1 Null)"
| "AVLTree_insert (Node l k h r) key =
     (if key = k then Some (False, Node l k h r)
      else if key < k then
        (case AVLTree_insert l key of
           None \<Rightarrow> None
         | Some (ok, l') \<Rightarrow>
             if \<not> ok then Some (False, Node l' k h r)
             else map_option (Pair True) (balance (Node l' k h r)))
      else
        (case AVLTree_insert r key of
           None \<Rightarrow> None
         | Some (ok, r') \<Rightarrow>
             if \<not> ok then Some (False, Node l k h r')
             else map_option (Pair True) (balance (Node l k h r'))))"

text \<open>
  \<^verbatim>\<open>AVLTree::pullMax(Node*& node)\<close> returns the detached maximum node and leaves the
  slot updated: with a right child it recurses and balances \<^verbatim>\<open>node\<close>, without one the
  slot takes \<^verbatim>\<open>node->left\<close>.
\<close>

fun pullMax :: "'a AVLNode \<Rightarrow> ('a AVLNode \<times> 'a AVLNode) option" where
  "pullMax Null = None"
| "pullMax (Node l k h r) =
     (if r \<noteq> Null then
        (case pullMax r of
           None \<Rightarrow> None
         | Some (mx, r') \<Rightarrow> map_option (Pair mx) (balance (Node l k h r')))
      else Some (Node l k h r, l))"

text \<open>
  \<^verbatim>\<open>AVLTree::remove(Node*&, T&)\<close>: a frame whose recursive call found nothing returns
  at once; at the match, with a left subtree, the node takes the key of
  \<^verbatim>\<open>pullMax(node->left)\<close>, and without one the slot takes \<^verbatim>\<open>node->right\<close> and the
  frame returns; every frame that is left calls \<^verbatim>\<open>balance\<close>.
\<close>

fun AVLTree_remove ::
  "'a::linorder AVLNode \<Rightarrow> 'a \<Rightarrow> ('a option \<times> 'a AVLNode) option" where
  "AVLTree_remove Null key = Some (None, Null)"
| "AVLTree_remove (Node l k h r) key =
     (if key < k then
        (case AVLTree_remove l key of
           None \<Rightarrow> None
         | Some (keyptr, l') \<Rightarrow>
             if keyptr = None then Some (keyptr, Node l' k h r)
             else map_option (Pair keyptr) (balance (Node l' k h r)))
      else if key > k then
        (case AVLTree_remove r key of
           None \<Rightarrow> None
         | Some (keyptr, r') \<Rightarrow>
             if keyptr = None then Some (keyptr, Node l k h r')
             else map_option (Pair keyptr) (balance (Node l k h r')))
      else if l \<noteq> Null then
        (case pullMax l of
           Some (Node ml mk mh mr, l') \<Rightarrow> map_option (Pair (Some k)) (balance (Node l' mk h r))
         | _ \<Rightarrow> None)
      else Some (Some k, r))"

text \<open>
  \<^verbatim>\<open>AVLTree::removeMax\<close>: \<^verbatim>\<open>max = Base::findMax(root)\<close>, then \<^verbatim>\<open>remove(max, max->key)\<close>
  runs on that slot, and only on it: no frame exists for the nodes above the slot.
  Likewise \<^verbatim>\<open>removeMin\<close>.
\<close>

definition AVLTree_removeMax ::
  "'a::linorder AVLNode \<Rightarrow> ('a option \<times> 'a AVLNode) option" where
  "AVLTree_removeMax root =
     (if root = Null then Some (None, root)
      else
        (case findMax root of
           Some (Node ml mk mh mr) \<Rightarrow>
             (case AVLTree_remove (Node ml mk mh mr) mk of
                None \<Rightarrow> None
              | Some (keyptr, max') \<Rightarrow> Some (keyptr, findMax_assign root max'))
         | _ \<Rightarrow> None))"

definition AVLTree_removeMin ::
  "'a::linorder AVLNode \<Rightarrow> ('a option \<times> 'a AVLNode) option" where
  "AVLTree_removeMin root =
     (if root = Null then Some (None, root)
      else
        (case findMin root of
           Some (Node ml mk mh mr) \<Rightarrow>
             (case AVLTree_remove (Node ml mk mh mr) mk of
                None \<Rightarrow> None
              | Some (keyptr, min') \<Rightarrow> Some (keyptr, findMin_assign root min'))
         | _ \<Rightarrow> None))"


text \<open>\<^verbatim>\<open>operator<<\<close> on a tree inserts the key and returns the tree.\<close>

definition BSTree_shl :: "'a::linorder BSTNode \<Rightarrow> 'a \<Rightarrow> 'a BSTNode" where
  "BSTree_shl bst key = snd (BSTree_insert bst key)"

definition AVLTree_shl :: "'a::linorder AVLNode \<Rightarrow> 'a \<Rightarrow> 'a AVLNode option" where
  "AVLTree_shl avl key = map_option snd (AVLTree_insert avl key)"

text \<open>A chain \<^verbatim>\<open>avl << k1 << k2 << ...\<close>, stopping at a null dereference.\<close>

fun AVLTree_shl_all :: "'a::linorder AVLNode \<Rightarrow> 'a list \<Rightarrow> 'a AVLNode option" where
  "AVLTree_shl_all avl [] = Some avl"
| "AVLTree_shl_all avl (key # keys) =
     (case AVLTree_shl avl key of
        None \<Rightarrow> None
      | Some avl' \<Rightarrow> AVLTree_shl_all avl' keys)"


section \<open>Invariants\<close>

text \<open>
  The ordering invariant of the data model: at every node the keys of the left subtree
  are below the node's key and the keys of the right subtree above it.
\<close>

fun ordered :: "('a::linorder, 'h) node \<Rightarrow> bool" where
  "ordered Null = True"
| "ordered (Node l k h r) =
     (ordered l \<and> ordered r \<and> (\<forall>x \<in> set (inorder l). x < k) \<and> (\<forall>x \<in> set (inorder r). k < x))"

text \<open>The recursive height: an absent child has height \<open>0\<close>.\<close>

fun height :: "('a, 'h) node \<Rightarrow> int" where
  "height Null = 0"
| "height (Node l k h r) = 1 + max (height l) (height r)"

text \<open>The cached-height invariant: every cached height is the recursive height.\<close>

fun heights_ok :: "'a AVLNode \<Rightarrow> bool" where
  "heights_ok Null = True"
| "heights_ok (Node l k h r) =
     (heights_ok l \<and> heights_ok r \<and> h = 1 + max (height l) (height r))"

text \<open>The balance invariant: at every node the heights of the children differ by at most one.\<close>

fun balanced :: "('a, 'h) node \<Rightarrow> bool" where
  "balanced Null = True"
| "balanced (Node l k h r) =
     (balanced l \<and> balanced r \<and> \<bar>height l - height r\<bar> \<le> 1)"

definition AVL_inv :: "'a AVLNode \<Rightarrow> bool" where
  "AVL_inv t = (heights_ok t \<and> balanced t)"

text \<open>
  A weaker invariant, which every operation of the AVL tree keeps, also those that
  leave cached heights stale: every cached height is at least \<open>1\<close>.
\<close>

fun heights_pos :: "'a AVLNode \<Rightarrow> bool" where
  "heights_pos Null = True"
| "heights_pos (Node l k h r) = (heights_pos l \<and> heights_pos r \<and> 1 \<le> h)"


text \<open>
  The trees a caller can build: from the empty tree, by the public operations.
\<close>

inductive BSTree_reachable :: "'a::linorder BSTNode \<Rightarrow> bool" where
  empty: "BSTree_reachable Null"
| insert: "BSTree_reachable t \<Longrightarrow> BSTree_insert t key = (ok, t') \<Longrightarrow> BSTree_reachable t'"
| remove: "BSTree_reachable t \<Longrightarrow> BSTree_remove_mode t key mode = Some (res, t') \<Longrightarrow>
     BSTree_reachable t'"
| removeMax: "BSTree_reachable t \<Longrightarrow> BSTree_removeMax t = Some (res, t') \<Longrightarrow> BSTree_reachable t'"
| removeMin: "BSTree_reachable t \<Longrightarrow> BSTree_removeMin t = Some (res, t') \<Longrightarrow> BSTree_reachable t'"

inductive AVLTree_reachable :: "'a::linorder AVLNode \<Rightarrow> bool" where
  empty: "AVLTree_reachable Null"
| insert: "AVLTree_reachable t \<Longrightarrow> AVLTree_insert t key = Some (ok, t') \<Longrightarrow> AVLTree_reachable t'"
| remove: "AVLTree_reachable t \<Longrightarrow> AVLTree_remove t key = Some (res, t') \<Longrightarrow> AVLTree_reachable t'"
| removeMax: "AVLTree_reachable t \<Longrightarrow> AVLTree_removeMax t = Some (res, t') \<Longrightarrow> AVLTree_reachable t'"
| removeMin: "AVLTree_reachable t \<Longrightarrow> AVLTree_removeMin t = Some (res, t') \<Longrightarrow> AVLTree_reachable t'"


section \<open>Slots: \<^verbatim>\<open>findMax\<close> and \<^verbatim>\<open>findMin\<close>\<close>

lemma findMax_Some:
  "t \<noteq> Null \<Longrightarrow> \<exists>ml mk mh. findMax t = Some (Node ml mk mh Null)"
  by (induction t) auto

lemma findMin_Some:
  "t \<noteq> Null \<Longrightarrow> \<exists>mk mh mr. findMin t = Some (Node Null mk mh mr)"
  by (induction t) auto

lemma findMax_right_Null:
  "findMax t = Some (Node ml mk mh mr) \<Longrightarrow> mr = Null"
  by (induction t) (auto split: if_splits)

lemma findMin_left_Null:
  "findMin t = Some (Node ml mk mh mr) \<Longrightarrow> ml = Null"
  by (induction t) (auto split: if_splits)

lemma inorder_findMax:
  "findMax t = Some m \<Longrightarrow>
   \<exists>pre. inorder t = pre @ inorder m \<and> (\<forall>v. inorder (findMax_assign t v) = pre @ inorder v)"
proof (induction t)
  case Null
  then show ?case by simp
next
  case (Node l k h r)
  show ?case
  proof (cases "r = Null")
    case True
    with Node.prems have "m = Node l k h r" by simp
    with True show ?thesis by (intro exI[of _ "[]"]) simp
  next
    case False
    with Node.prems have "findMax r = Some m" by simp
    from Node.IH(2)[OF this] obtain pre where
      "inorder r = pre @ inorder m" "\<forall>v. inorder (findMax_assign r v) = pre @ inorder v"
      by blast
    with False show ?thesis by (intro exI[of _ "inorder l @ k # pre"]) simp
  qed
qed

lemma inorder_findMin:
  "findMin t = Some m \<Longrightarrow>
   \<exists>post. inorder t = inorder m @ post \<and> (\<forall>v. inorder (findMin_assign t v) = inorder v @ post)"
proof (induction t)
  case Null
  then show ?case by simp
next
  case (Node l k h r)
  show ?case
  proof (cases "l = Null")
    case True
    with Node.prems have "m = Node l k h r" by simp
    with True show ?thesis by (intro exI[of _ "[]"]) simp
  next
    case False
    with Node.prems have "findMin l = Some m" by simp
    from Node.IH(1)[OF this] obtain post where
      "inorder l = inorder m @ post" "\<forall>v. inorder (findMin_assign l v) = inorder v @ post"
      by blast
    with False show ?thesis by (intro exI[of _ "post @ k # inorder r"]) simp
  qed
qed

lemma findMax_assign_same:
  "findMax t = Some m \<Longrightarrow> findMax_assign t m = t"
  by (induction t) (auto split: if_splits)

lemma findMin_assign_same:
  "findMin t = Some m \<Longrightarrow> findMin_assign t m = t"
  by (induction t) (auto split: if_splits)

lemma inorder_Null_iff: "inorder t = [] \<longleftrightarrow> t = Null"
  by (cases t) auto


section \<open>The two removal strategies of the BSTree\<close>

lemma removeByCopy_Some: "\<exists>res. removeByCopy t key = Some res"
proof (induction t)
  case Null
  show ?case by simp
next
  case (Node l k h r)
  show ?case
  proof (cases "l = Null")
    case True
    with Node show ?thesis by auto
  next
    case False
    from findMax_Some[OF this] obtain ml mk mh where "findMax l = Some (Node ml mk mh Null)"
      by blast
    with Node show ?thesis by auto
  qed
qed

lemma removeByFusion_Some: "\<exists>res. removeByFusion t key = Some res"
proof (induction t)
  case Null
  show ?case by simp
next
  case (Node l k h r)
  show ?case
  proof (cases "l = Null")
    case True
    with Node show ?thesis by auto
  next
    case False
    from findMax_Some[OF this] obtain ml mk mh where "findMax l = Some (Node ml mk mh Null)"
      by blast
    with Node show ?thesis by auto
  qed
qed

lemma removeByCopy_eq_Fusion:
  "removeByCopy t key = Some (rc, tc) \<Longrightarrow> removeByFusion t key = Some (rf, tf) \<Longrightarrow>
   rc = rf \<and> inorder tc = inorder tf"
proof (induction t arbitrary: rc tc rf tf)
  case Null
  then show ?case by simp
next
  case (Node l k h r)
  consider (lt) "key < k" | (gt) "k < key" | (eq) "\<not> key < k" "\<not> k < key" by blast
  then show ?case
  proof cases
    case lt
    obtain a la b lb where
      l: "removeByCopy l key = Some (a, la)" "removeByFusion l key = Some (b, lb)"
      using removeByCopy_Some[of l key] removeByFusion_Some[of l key] by auto
    from Node.IH(1)[OF l] lt l Node.prems show ?thesis by auto
  next
    case gt
    obtain a ra b rb where
      r: "removeByCopy r key = Some (a, ra)" "removeByFusion r key = Some (b, rb)"
      using removeByCopy_Some[of r key] removeByFusion_Some[of r key] by auto
    from gt have "\<not> key < k" by simp
    with Node.IH(2)[OF r] gt r Node.prems show ?thesis by auto
  next
    case eq
    show ?thesis
    proof (cases "l = Null")
      case True
      with eq Node.prems show ?thesis by simp
    next
      case False
      from findMax_Some[OF this] obtain ml mk mh where m: "findMax l = Some (Node ml mk mh Null)"
        by blast
      from inorder_findMax[OF m] obtain pre where
        pre: "inorder l = pre @ inorder (Node ml mk mh Null)"
             "\<forall>v. inorder (findMax_assign l v) = pre @ inorder v"
        by blast
      from eq False m Node.prems have
        "rc = Some k" "tc = Node (findMax_assign l ml) mk h r"
        "rf = Some k" "tf = findMax_assign l (Node ml mk mh r)"
        by auto
      with pre show ?thesis by simp
    qed
  qed
qed


text \<open>
  Claim C8.  Removal by copy and removal by fusion of the same key from the same tree
  return the same key and leave trees with the same in-order key sequence.  This holds
  for every tree and key, in particular when the node of the key has two children (the
  case in which the two strategies build different shapes).
\<close>

theorem C8_copy_fusion_same_inorder:
  "\<exists>rc tc rf tf.
     BSTree_remove_mode t key COPY = Some (rc, tc) \<and>
     BSTree_remove_mode t key FUSION = Some (rf, tf) \<and>
     rc = rf \<and> inorder tc = inorder tf"
proof -
  obtain rc tc where c: "removeByCopy t key = Some (rc, tc)"
    using removeByCopy_Some[of t key] by auto
  obtain rf tf where f: "removeByFusion t key = Some (rf, tf)"
    using removeByFusion_Some[of t key] by auto
  from removeByCopy_eq_Fusion[OF c f] c f show ?thesis by simp
qed

theorem C8_copy_fusion_same_inorder_witness:
  "BSTree_remove_mode
     (Node (Node Null 1 () (Node Null 2 () Null)) (3::nat) () (Node Null 4 () (Node Null 5 () Null)))
     3 COPY
   = Some (Some 3, Node (Node Null 1 () Null) 2 () (Node Null 4 () (Node Null 5 () Null))) \<and>
   BSTree_remove_mode
     (Node (Node Null 1 () (Node Null 2 () Null)) (3::nat) () (Node Null 4 () (Node Null 5 () Null)))
     3 FUSION
   = Some (Some 3, Node Null 1 () (Node Null 2 () (Node Null 4 () (Node Null 5 () Null)))) \<and>
   inorder (Node (Node Null 1 () Null) 2 () (Node Null 4 () (Node Null 5 () Null)))
   = inorder (Node Null (1::nat) () (Node Null 2 () (Node Null 4 () (Node Null 5 () Null))))"
  using C8_copy_fusion_same_inorder
    [of "Node (Node Null 1 () (Node Null 2 () Null)) (3::nat) () (Node Null 4 () (Node Null 5 () Null))" 3]
  by simp



section \<open>Rotations and \<^verbatim>\<open>balance\<close> never dereference null\<close>

lemma height_nonneg: "0 \<le> height t"
  by (induction t) auto

lemma heights_ok_cached: "heights_ok t \<Longrightarrow> height_or_0 t = height t"
  by (cases t) auto

lemma heights_ok_pos: "heights_ok t \<Longrightarrow> heights_pos t"
proof (induction t)
  case Null show ?case by simp
next
  case (Node l k h r)
  have "0 \<le> height l" by (rule height_nonneg)
  with Node show ?case by auto
qed

lemma heights_pos_nonneg: "heights_pos t \<Longrightarrow> 0 \<le> height_or_0 t"
  by (cases t) auto

lemma heights_pos_Null: "heights_pos t \<Longrightarrow> height_or_0 t \<le> 0 \<Longrightarrow> t = Null"
  by (cases t) auto

lemma rotateLeft_pos:
  assumes "heights_pos l" "heights_pos r" "r \<noteq> Null"
  shows "\<exists>t'. rotateLeft (Node l k h r) = Some t' \<and> t' \<noteq> Null \<and> heights_pos t' \<and>
           inorder t' = inorder l @ k # inorder r \<and> size t' = size (Node l k h r)"
proof -
  from assms(3) obtain rl rk rh rr where r: "r = Node rl rk rh rr" by (cases r) auto
  with assms have "0 \<le> height_or_0 l" "0 \<le> height_or_0 rl" "0 \<le> height_or_0 rr"
    by (auto intro: heights_pos_nonneg)
  with r assms show ?thesis by auto
qed

lemma rotateRight_pos:
  assumes "heights_pos l" "heights_pos r" "l \<noteq> Null"
  shows "\<exists>t'. rotateRight (Node l k h r) = Some t' \<and> t' \<noteq> Null \<and> heights_pos t' \<and>
           inorder t' = inorder l @ k # inorder r \<and> size t' = size (Node l k h r)"
proof -
  from assms(3) obtain ll lk lh lr where l: "l = Node ll lk lh lr" by (cases l) auto
  with assms have "0 \<le> height_or_0 r" "0 \<le> height_or_0 ll" "0 \<le> height_or_0 lr"
    by (auto intro: heights_pos_nonneg)
  with l assms show ?thesis by auto
qed

lemma balance_pos:
  assumes l: "heights_pos l" and r: "heights_pos r"
  shows "\<exists>t'. balance (Node l k h r) = Some t' \<and> t' \<noteq> Null \<and> heights_pos t' \<and>
           inorder t' = inorder l @ k # inorder r \<and> size t' = size (Node l k h r)"
proof -
  let ?h = "(if height_or_0 l > height_or_0 r then height_or_0 l else height_or_0 r) + 1"
  have nn: "0 \<le> height_or_0 l" "0 \<le> height_or_0 r"
    using l r by (auto intro: heights_pos_nonneg)
  then have h1: "1 \<le> ?h" by auto
  consider (L) "height_or_0 l - height_or_0 r = 2"
    | (R) "height_or_0 l - height_or_0 r = - 2"
    | (N) "height_or_0 l - height_or_0 r \<noteq> 2" "height_or_0 l - height_or_0 r \<noteq> - 2"
    by blast
  then show ?thesis
  proof cases
    case N
    with l r h1 show ?thesis by simp
  next
    case L
    with nn have "l \<noteq> Null" using heights_pos_Null[OF l] by auto
    then obtain ll lk lh lr where ln: "l = Node ll lk lh lr" by (cases l) auto
    show ?thesis
    proof (cases "height_or_0 ll - height_or_0 lr < 0")
      case False
      from rotateRight_pos[OF l r \<open>l \<noteq> Null\<close>, of k ?h] L False ln
      show ?thesis by simp
    next
      case True
      from l ln have p: "heights_pos ll" "heights_pos lr" by auto
      with True have "lr \<noteq> Null"
        using heights_pos_nonneg[of ll] heights_pos_Null[of lr] by auto
      from rotateLeft_pos[OF p this, of lk lh] obtain l' where
        l': "rotateLeft l = Some l'" "l' \<noteq> Null" "heights_pos l'"
            "inorder l' = inorder l" "size l' = size l"
        using ln by auto
      from rotateRight_pos[OF l'(3) r l'(2), of k ?h] L True ln l'
      show ?thesis by simp
    qed
  next
    case R
    with nn have "r \<noteq> Null" using heights_pos_Null[OF r] by auto
    then obtain rl rk rh rr where rn: "r = Node rl rk rh rr" by (cases r) auto
    show ?thesis
    proof (cases "height_or_0 rl - height_or_0 rr > 0")
      case False
      from rotateLeft_pos[OF l r \<open>r \<noteq> Null\<close>, of k ?h] R False rn
      show ?thesis by simp
    next
      case True
      from r rn have p: "heights_pos rl" "heights_pos rr" by auto
      with True have "rl \<noteq> Null"
        using heights_pos_nonneg[of rr] heights_pos_Null[of rl] by auto
      from rotateRight_pos[OF p this, of rk rh] obtain r' where
        r': "rotateRight r = Some r'" "r' \<noteq> Null" "heights_pos r'"
            "inorder r' = inorder r" "size r' = size r"
        using rn by auto
      from rotateLeft_pos[OF l r'(3) r'(2), of k ?h] R True rn r'
      show ?thesis by simp
    qed
  qed
qed



section \<open>AVL insertion and \<^verbatim>\<open>pullMax\<close>\<close>

lemma ordered_iff_sorted: "ordered t \<longleftrightarrow> sorted_wrt (<) (inorder t)"
  by (induction t) (auto simp: sorted_wrt_append intro: less_trans)

lemma pullMax_pos:
  "heights_pos t \<Longrightarrow> t \<noteq> Null \<Longrightarrow>
   \<exists>ml mk mh mr t'. pullMax t = Some (Node ml mk mh mr, t') \<and> heights_pos t' \<and>
      inorder t = inorder t' @ [mk] \<and> size t = Suc (size t')"
proof (induction t)
  case Null
  then show ?case by simp
next
  case (Node l k h r)
  show ?case
  proof (cases "r = Null")
    case True
    with Node.prems show ?thesis by simp
  next
    case False
    with Node obtain ml mk mh mr r' where
      r': "pullMax r = Some (Node ml mk mh mr, r')" "heights_pos r'"
          "inorder r = inorder r' @ [mk]" "size r = Suc (size r')"
      by auto
    from Node.prems have "heights_pos l" by simp
    from balance_pos[OF this r'(2), of k h] obtain t' where
      "balance (Node l k h r') = Some t'" "heights_pos t'"
      "inorder t' = inorder l @ k # inorder r'" "size t' = size (Node l k h r')"
      by blast
    with False r' show ?thesis by simp
  qed
qed

lemma AVLTree_insert_pos:
  "heights_pos t \<Longrightarrow>
   \<exists>ok t'. AVLTree_insert t key = Some (ok, t') \<and> heights_pos t' \<and>
     (\<not> ok \<longrightarrow> t' = t) \<and>
     (ok \<longrightarrow> set (inorder t') = insert key (set (inorder t)) \<and> size t' = Suc (size t)) \<and>
     (key \<notin> set (inorder t) \<longrightarrow> ok) \<and>
     (ordered t \<longrightarrow> ordered t' \<and> (ok \<longrightarrow> key \<notin> set (inorder t)))"
proof (induction t)
  case Null
  show ?case by auto
next
  case (Node l k h r)
  from Node.prems have hp: "heights_pos l" "heights_pos r" by simp_all
  consider (eq) "key = k" | (lt) "key < k" | (gt) "k < key" using less_linear[of key k] by blast
  then show ?case
  proof cases
    case eq
    with Node.prems show ?thesis by auto
  next
    case lt
    from Node.IH(1)[OF hp(1)] obtain ok l' where
      l': "AVLTree_insert l key = Some (ok, l')" "heights_pos l'" "\<not> ok \<longrightarrow> l' = l"
          "ok \<longrightarrow> set (inorder l') = insert key (set (inorder l)) \<and> size l' = Suc (size l)"
          "key \<notin> set (inorder l) \<longrightarrow> ok"
          "ordered l \<longrightarrow> ordered l' \<and> (ok \<longrightarrow> key \<notin> set (inorder l))"
      by blast
    show ?thesis
    proof (cases ok)
      case False
      with l' lt Node.prems show ?thesis by auto
    next
      case True
      from balance_pos[OF l'(2) hp(2), of k h] obtain t' where
        t': "balance (Node l' k h r) = Some t'" "heights_pos t'"
            "inorder t' = inorder l' @ k # inorder r" "size t' = size (Node l' k h r)"
        by blast
      have "ordered (Node l k h r) \<longrightarrow> ordered t' \<and> key \<notin> set (inorder (Node l k h r))"
      proof
        assume o: "ordered (Node l k h r)"
        with l' True lt have "ordered (Node l' k h r)" by auto
        then have "ordered t'" using t'(3) by (simp add: ordered_iff_sorted)
        moreover from o l' True lt have "key \<notin> set (inorder (Node l k h r))" by auto
        ultimately show "ordered t' \<and> key \<notin> set (inorder (Node l k h r))" by simp
      qed
      with True l' lt t' show ?thesis by auto
    qed
  next
    case gt
    then have ngt: "\<not> key < k" "key \<noteq> k" by auto
    from Node.IH(2)[OF hp(2)] obtain ok r' where
      r': "AVLTree_insert r key = Some (ok, r')" "heights_pos r'" "\<not> ok \<longrightarrow> r' = r"
          "ok \<longrightarrow> set (inorder r') = insert key (set (inorder r)) \<and> size r' = Suc (size r)"
          "key \<notin> set (inorder r) \<longrightarrow> ok"
          "ordered r \<longrightarrow> ordered r' \<and> (ok \<longrightarrow> key \<notin> set (inorder r))"
      by blast
    show ?thesis
    proof (cases ok)
      case False
      with r' gt ngt Node.prems show ?thesis by auto
    next
      case True
      from balance_pos[OF hp(1) r'(2), of k h] obtain t' where
        t': "balance (Node l k h r') = Some t'" "heights_pos t'"
            "inorder t' = inorder l @ k # inorder r'" "size t' = size (Node l k h r')"
        by blast
      have "ordered (Node l k h r) \<longrightarrow> ordered t' \<and> key \<notin> set (inorder (Node l k h r))"
      proof
        assume o: "ordered (Node l k h r)"
        with r' True gt have "ordered (Node l k h r')" by auto
        then have "ordered t'" using t'(3) by (simp add: ordered_iff_sorted)
        moreover from o r' True gt have "key \<notin> set (inorder (Node l k h r))" by auto
        ultimately show "ordered t' \<and> key \<notin> set (inorder (Node l k h r))" by simp
      qed
      with True r' gt ngt t' show ?thesis by auto
    qed
  qed
qed



section \<open>Insertion and removal: absent and present keys\<close>

lemma AVLTree_remove_absent:
  "key \<notin> set (inorder t) \<Longrightarrow> AVLTree_remove t key = Some (None, t)"
proof (induction t)
  case Null
  show ?case by simp
next
  case (Node l k h r)
  then have "key \<noteq> k" by auto
  then consider (lt) "key < k" | (gt) "k < key" "\<not> key < k" by fastforce
  then show ?case
  proof cases
    case lt
    with Node show ?thesis by simp
  next
    case gt
    with Node show ?thesis by simp
  qed
qed

lemma AVLTree_insert_present:
  "ordered t \<Longrightarrow> key \<in> set (inorder t) \<Longrightarrow> AVLTree_insert t key = Some (False, t)"
proof (induction t)
  case Null
  then show ?case by simp
next
  case (Node l k h r)
  consider (eq) "key = k" | (lt) "key < k" | (gt) "k < key" using less_linear[of key k] by blast
  then show ?case
  proof cases
    case eq
    then show ?thesis by simp
  next
    case lt
    with Node.prems have "key \<in> set (inorder l)" by auto
    with Node lt show ?thesis by simp
  next
    case gt
    with Node.prems have "key \<in> set (inorder r)" by auto
    moreover from gt have "\<not> key < k" "key \<noteq> k" by auto
    ultimately show ?thesis using Node by simp
  qed
qed

lemma BSTree_insert_spec:
  "BSTree_insert t key = (ok, t') \<Longrightarrow>
     (\<not> ok \<longrightarrow> t' = t) \<and>
     (ok \<longrightarrow> set (inorder t') = insert key (set (inorder t)) \<and> size t' = Suc (size t)) \<and>
     (key \<notin> set (inorder t) \<longrightarrow> ok) \<and>
     (ordered t \<longrightarrow> ordered t' \<and> (ok \<longrightarrow> key \<notin> set (inorder t)))"
proof (induction t arbitrary: ok t')
  case Null
  then show ?case by auto
next
  case (Node l k h r)
  consider (eq) "key = k" | (lt) "key < k" | (gt) "k < key" using less_linear[of key k] by blast
  then show ?case
  proof cases
    case eq
    with Node.prems show ?thesis by auto
  next
    case lt
    obtain ok1 l' where l': "BSTree_insert l key = (ok1, l')" by fastforce
    with lt Node.prems have res: "ok = ok1" "t' = Node l' k h r" by auto
    note IH = Node.IH(1)[OF l']
    show ?thesis
    proof (cases ok1)
      case False
      with IH res lt show ?thesis by auto
    next
      case True
      with IH res lt show ?thesis by auto
    qed
  next
    case gt
    then have ngt: "\<not> key < k" "key \<noteq> k" by auto
    obtain ok1 r' where r': "BSTree_insert r key = (ok1, r')" by fastforce
    with gt ngt Node.prems have res: "ok = ok1" "t' = Node l k h r'" by auto
    note IH = Node.IH(2)[OF r']
    show ?thesis
    proof (cases ok1)
      case False
      with IH res gt show ?thesis by auto
    next
      case True
      with IH res gt show ?thesis by auto
    qed
  qed
qed

lemma removeByCopy_absent:
  "key \<notin> set (inorder t) \<Longrightarrow> removeByCopy t key = Some (None, t)"
proof (induction t)
  case Null
  show ?case by simp
next
  case (Node l k h r)
  then have "key \<noteq> k" by auto
  then consider (lt) "key < k" | (gt) "k < key" "\<not> key < k" by fastforce
  then show ?case
  proof cases
    case lt
    with Node show ?thesis by simp
  next
    case gt
    with Node show ?thesis by simp
  qed
qed

lemma removeByFusion_absent:
  "key \<notin> set (inorder t) \<Longrightarrow> removeByFusion t key = Some (None, t)"
proof (induction t)
  case Null
  show ?case by simp
next
  case (Node l k h r)
  then have "key \<noteq> k" by auto
  then consider (lt) "key < k" | (gt) "k < key" "\<not> key < k" by fastforce
  then show ?case
  proof cases
    case lt
    with Node show ?thesis by simp
  next
    case gt
    with Node show ?thesis by simp
  qed
qed

lemma BSTree_insert_then_remove:
  "key \<notin> set (inorder t) \<Longrightarrow>
   \<exists>t'. BSTree_insert t key = (True, t') \<and>
     removeByCopy t' key = Some (Some key, t) \<and> removeByFusion t' key = Some (Some key, t)"
proof (induction t)
  case Null
  show ?case by simp
next
  case (Node l k h r)
  then have "key \<noteq> k" by auto
  then consider (lt) "key < k" | (gt) "k < key" "\<not> key < k" by fastforce
  then show ?case
  proof cases
    case lt
    with Node show ?thesis by auto
  next
    case gt
    with Node show ?thesis by auto
  qed
qed


section \<open>AVL removal\<close>

lemma AVLTree_remove_pos:
  "heights_pos t \<Longrightarrow>
   \<exists>res t'. AVLTree_remove t key = Some (res, t') \<and> heights_pos t' \<and>
     (res = None \<longrightarrow> t' = t) \<and>
     (res \<noteq> None \<longrightarrow> res = Some key \<and> size t = Suc (size t')) \<and>
     (ordered t \<longrightarrow> inorder t' = filter (\<lambda>x. x \<noteq> key) (inorder t) \<and>
        (res = None \<longleftrightarrow> key \<notin> set (inorder t)))"
proof (induction t)
  case Null
  show ?case by simp
next
  case (Node l k h r)
  from Node.prems have hp: "heights_pos l" "heights_pos r" by simp_all
  consider (lt) "key < k" | (gt) "k < key" | (eq) "key = k" using less_linear[of key k] by blast
  then show ?case
  proof cases
    case lt
    from Node.IH(1)[OF hp(1)] obtain res l' where
      l': "AVLTree_remove l key = Some (res, l')" "heights_pos l'" "res = None \<longrightarrow> l' = l"
          "res \<noteq> None \<longrightarrow> res = Some key \<and> size l = Suc (size l')"
          "ordered l \<longrightarrow> inorder l' = filter (\<lambda>x. x \<noteq> key) (inorder l) \<and>
             (res = None \<longleftrightarrow> key \<notin> set (inorder l))"
      by blast
    have flt: "ordered (Node l k h r) \<Longrightarrow> filter (\<lambda>x. x \<noteq> key) (k # inorder r) = k # inorder r"
      using lt by (auto simp: filter_id_conv)
    have nin: "ordered (Node l k h r) \<Longrightarrow> key \<notin> set (k # inorder r)"
      using lt by auto
    show ?thesis
    proof (cases "res = None")
      case True
      with l' lt Node.prems flt nin show ?thesis by auto
    next
      case False
      from balance_pos[OF l'(2) hp(2), of k h] obtain t' where
        t': "balance (Node l' k h r) = Some t'" "heights_pos t'"
            "inorder t' = inorder l' @ k # inorder r" "size t' = size (Node l' k h r)"
        by blast
      with False l' lt flt nin show ?thesis by auto
    qed
  next
    case gt
    then have ngt: "\<not> key < k" by simp
    from Node.IH(2)[OF hp(2)] obtain res r' where
      r': "AVLTree_remove r key = Some (res, r')" "heights_pos r'" "res = None \<longrightarrow> r' = r"
          "res \<noteq> None \<longrightarrow> res = Some key \<and> size r = Suc (size r')"
          "ordered r \<longrightarrow> inorder r' = filter (\<lambda>x. x \<noteq> key) (inorder r) \<and>
             (res = None \<longleftrightarrow> key \<notin> set (inorder r))"
      by blast
    have flt: "ordered (Node l k h r) \<Longrightarrow> filter (\<lambda>x. x \<noteq> key) (inorder l) = inorder l" "k \<noteq> key"
      using gt by (auto simp: filter_id_conv)
    have nin: "ordered (Node l k h r) \<Longrightarrow> key \<notin> set (inorder l)"
      using gt by auto
    show ?thesis
    proof (cases "res = None")
      case True
      with r' gt ngt Node.prems flt nin show ?thesis by auto
    next
      case False
      from balance_pos[OF hp(1) r'(2), of k h] obtain t' where
        t': "balance (Node l k h r') = Some t'" "heights_pos t'"
            "inorder t' = inorder l @ k # inorder r'" "size t' = size (Node l k h r')"
        by blast
      with False r' gt ngt flt nin show ?thesis by auto
    qed
  next
    case eq
    have flt: "filter (\<lambda>x. x \<noteq> key) (inorder (Node l k h r)) = inorder l @ inorder r"
      if "ordered (Node l k h r)"
    proof -
      from that eq have "\<forall>x \<in> set (inorder l). x \<noteq> key" "\<forall>x \<in> set (inorder r). x \<noteq> key"
        by auto
      then have "filter (\<lambda>x. x \<noteq> key) (inorder l) = inorder l"
        "filter (\<lambda>x. x \<noteq> key) (inorder r) = inorder r"
        by (simp_all add: filter_id_conv)
      with eq show ?thesis by simp
    qed
    show ?thesis
    proof (cases "l = Null")
      case True
      with eq hp flt show ?thesis by auto
    next
      case False
      from pullMax_pos[OF hp(1) False] obtain ml mk mh mr l' where
        l': "pullMax l = Some (Node ml mk mh mr, l')" "heights_pos l'"
            "inorder l = inorder l' @ [mk]" "size l = Suc (size l')"
        by blast
      from balance_pos[OF l'(2) hp(2), of mk h] obtain t' where
        t': "balance (Node l' mk h r) = Some t'" "heights_pos t'"
            "inorder t' = inorder l' @ mk # inorder r" "size t' = size (Node l' mk h r)"
        by blast
      from False eq l' t' flt show ?thesis by auto
    qed
  qed
qed



section \<open>Claims on absent and present keys\<close>

text \<open>
  Claim C4.  In a tree that satisfies the ordering invariant, inserting a key that is
  already stored returns \<^verbatim>\<open>false\<close> and leaves the tree as it was, node for node: the
  traversal output is the same, and in the AVL tree no node has been rebalanced and no
  cached height rewritten.
\<close>

theorem C4_insert_present_unchanged:
  "(ordered bst \<and> key \<in> set (inorder bst) \<longrightarrow> BSTree_insert bst key = (False, bst)) \<and>
   (ordered avl \<and> key \<in> set (inorder avl) \<longrightarrow> AVLTree_insert avl key = Some (False, avl))"
proof (intro conjI impI)
  assume a: "ordered bst \<and> key \<in> set (inorder bst)"
  obtain ok t' where r: "BSTree_insert bst key = (ok, t')" by fastforce
  from BSTree_insert_spec[OF r] a have "\<not> ok" "t' = bst" by auto
  with r show "BSTree_insert bst key = (False, bst)" by simp
next
  assume "ordered avl \<and> key \<in> set (inorder avl)"
  then show "AVLTree_insert avl key = Some (False, avl)"
    by (simp add: AVLTree_insert_present)
qed

theorem C4_insert_present_unchanged_witness:
  "BSTree_insert (Node (Node Null 1 () Null) (2::nat) () (Node Null 3 () Null)) 3
     = (False, Node (Node Null 1 () Null) 2 () (Node Null 3 () Null)) \<and>
   AVLTree_insert (Node (Node Null 1 1 Null) (2::nat) 2 (Node Null 3 1 Null)) 3
     = Some (False, Node (Node Null 1 1 Null) 2 2 (Node Null 3 1 Null))"
  using C4_insert_present_unchanged
    [of "Node (Node Null 1 () Null) (2::nat) () (Node Null 3 () Null)" 3
        "Node (Node Null 1 1 Null) (2::nat) 2 (Node Null 3 1 Null)"]
  by simp

text \<open>
  Claim C5.  Removing a key that is not stored returns the null pointer and leaves the
  tree as it was, in the BSTree (by default, by copy and by fusion) and in the AVL tree;
  \<^verbatim>\<open>removeMax\<close> and \<^verbatim>\<open>removeMin\<close> on the empty tree return the null pointer and leave
  the tree empty.
\<close>

theorem C5_remove_absent_unchanged:
  "(key \<notin> set (inorder bst) \<longrightarrow>
      BSTree_remove bst key = Some (None, bst) \<and>
      BSTree_remove_mode bst key COPY = Some (None, bst) \<and>
      BSTree_remove_mode bst key FUSION = Some (None, bst)) \<and>
   (key \<notin> set (inorder avl) \<longrightarrow> AVLTree_remove avl key = Some (None, avl)) \<and>
   BSTree_removeMax (Null :: ('a::linorder, 'h) node) = Some (None, Null) \<and>
   BSTree_removeMin (Null :: ('a::linorder, 'h) node) = Some (None, Null) \<and>
   AVLTree_removeMax (Null :: 'a::linorder AVLNode) = Some (None, Null) \<and>
   AVLTree_removeMin (Null :: 'a::linorder AVLNode) = Some (None, Null)"
  for key :: "'a::linorder" and bst :: "('a, 'h) node"
  by (simp add: BSTree_remove_def removeByCopy_absent removeByFusion_absent
      AVLTree_remove_absent BSTree_removeMax_def BSTree_removeMin_def
      AVLTree_removeMax_def AVLTree_removeMin_def)

theorem C5_remove_absent_unchanged_witness:
  "BSTree_remove (Node (Node Null 1 () Null) (2::nat) () (Node Null 4 () Null)) 3
     = Some (None, Node (Node Null 1 () Null) 2 () (Node Null 4 () Null)) \<and>
   BSTree_remove_mode (Node (Node Null 1 () Null) (2::nat) () (Node Null 4 () Null)) 3 FUSION
     = Some (None, Node (Node Null 1 () Null) 2 () (Node Null 4 () Null)) \<and>
   AVLTree_remove (Node (Node Null 1 1 Null) (2::nat) 2 (Node Null 4 1 Null)) 3
     = Some (None, Node (Node Null 1 1 Null) 2 2 (Node Null 4 1 Null)) \<and>
   BSTree_removeMax (Null :: nat BSTNode) = Some (None, Null) \<and>
   AVLTree_removeMin (Null :: nat AVLNode) = Some (None, Null)"
  using C5_remove_absent_unchanged
    [of 3 "Node (Node Null 1 () Null) (2::nat) () (Node Null 4 () Null)"
        "Node (Node Null 1 1 Null) (2::nat) 2 (Node Null 4 1 Null)"]
  by simp

lemma inorder_remove_inserted:
  assumes "ordered t" "ordered t'" "set (inorder t') = insert key (set (inorder t))"
    "key \<notin> set (inorder t)"
  shows "filter (\<lambda>x. x \<noteq> key) (inorder t') = inorder t"
proof (rule strict_sorted_equal)
  show "sorted_wrt (<) (inorder t)" using assms(1) by (simp add: ordered_iff_sorted)
  show "sorted_wrt (<) (filter (\<lambda>x. x \<noteq> key) (inorder t'))"
    using assms(2) by (simp add: ordered_iff_sorted sorted_wrt_filter)
  show "set (filter (\<lambda>x. x \<noteq> key) (inorder t')) = set (inorder t)"
    using assms(3,4) by auto
qed

text \<open>
  Claim C6.  Inserting a key that is not stored and removing it at once returns the key
  and leaves a tree with the in-order sequence of the tree before the insertion (in the
  BSTree, with either removal mode, the very tree).  For the AVL tree the statement is
  about trees that satisfy the ordering invariant and whose cached heights are
  positive, which holds of every tree the operations build.
\<close>

theorem C6_insert_then_remove:
  "(key \<notin> set (inorder bst) \<longrightarrow>
      (\<exists>t' t''. BSTree_insert bst key = (True, t') \<and>
         BSTree_remove t' key = Some (Some key, t'') \<and>
         BSTree_remove_mode t' key mode = Some (Some key, t'') \<and> inorder t'' = inorder bst)) \<and>
   (ordered avl \<and> heights_pos avl \<and> key \<notin> set (inorder avl) \<longrightarrow>
      (\<exists>t' t''. AVLTree_insert avl key = Some (True, t') \<and>
         AVLTree_remove t' key = Some (Some key, t'') \<and> inorder t'' = inorder avl))"
proof (intro conjI impI)
  assume "key \<notin> set (inorder bst)"
  from BSTree_insert_then_remove[OF this]
  show "\<exists>t' t''. BSTree_insert bst key = (True, t') \<and>
         BSTree_remove t' key = Some (Some key, t'') \<and>
         BSTree_remove_mode t' key mode = Some (Some key, t'') \<and> inorder t'' = inorder bst"
    by (cases mode) (auto simp: BSTree_remove_def)
next
  assume a: "ordered avl \<and> heights_pos avl \<and> key \<notin> set (inorder avl)"
  then have hp: "heights_pos avl" by simp
  from AVLTree_insert_pos[OF hp, of key] a obtain t' where
    t': "AVLTree_insert avl key = Some (True, t')" "heights_pos t'" "ordered t'"
        "set (inorder t') = insert key (set (inorder avl))"
    by auto
  from AVLTree_remove_pos[OF t'(2), of key] t'(3,4) obtain t'' where
    t'': "AVLTree_remove t' key = Some (Some key, t'')"
         "inorder t'' = filter (\<lambda>x. x \<noteq> key) (inorder t')"
    by auto
  from inorder_remove_inserted[OF _ t'(3,4)] a t''(2) have "inorder t'' = inorder avl"
    by simp
  with t'(1) t''(1) show "\<exists>t' t''. AVLTree_insert avl key = Some (True, t') \<and>
         AVLTree_remove t' key = Some (Some key, t'') \<and> inorder t'' = inorder avl"
    by simp
qed


theorem C6_insert_then_remove_witness:
  "BSTree_insert (Node (Node Null 1 () Null) (2::nat) () Null) 0
     = (True, Node (Node (Node Null 0 () Null) 1 () Null) 2 () Null) \<and>
   BSTree_remove (Node (Node (Node Null 0 () Null) 1 () Null) (2::nat) () Null) 0
     = Some (Some 0, Node (Node Null 1 () Null) 2 () Null) \<and>
   BSTree_remove_mode (Node (Node (Node Null 0 () Null) 1 () Null) (2::nat) () Null) 0 FUSION
     = Some (Some 0, Node (Node Null 1 () Null) 2 () Null) \<and>
   AVLTree_insert (Node (Node Null 1 1 Null) (2::nat) 2 Null) 0
     = Some (True, Node (Node Null 0 1 Null) 1 2 (Node Null 2 1 Null)) \<and>
   AVLTree_remove (Node (Node Null 0 1 Null) 1 2 (Node Null (2::nat) 1 Null)) 0
     = Some (Some 0, Node Null 1 2 (Node Null 2 1 Null)) \<and>
   inorder (Node Null 1 2 (Node Null (2::nat) 1 Null)) = inorder (Node (Node Null 1 1 Null) (2::nat) 2 Null)"
  using C6_insert_then_remove
    [of 0 "Node (Node Null 1 () Null) (2::nat) () Null" FUSION
        "Node (Node Null 1 1 Null) (2::nat) 2 Null"]
  by (simp add: BSTree_remove_def)


section \<open>Sequences of insertions\<close>

lemma BSTree_shl_spec:
  assumes "ordered t"
  shows "ordered (BSTree_shl t key) \<and> set (inorder (BSTree_shl t key)) = insert key (set (inorder t))"
proof -
  obtain ok t' where r: "BSTree_insert t key = (ok, t')" by fastforce
  from BSTree_insert_spec[OF r] assms r show ?thesis
    by (cases ok) (auto simp: BSTree_shl_def)
qed

lemma BSTree_shl_foldl:
  "ordered t \<Longrightarrow>
   ordered (foldl BSTree_shl t keys) \<and>
   set (inorder (foldl BSTree_shl t keys)) = set (inorder t) \<union> set keys"
proof (induction keys arbitrary: t)
  case Nil
  then show ?case by simp
next
  case (Cons key keys)
  from BSTree_shl_spec[OF Cons.prems, of key] Cons.IH[of "BSTree_shl t key"]
  show ?case by auto
qed

lemma AVLTree_shl_spec:
  assumes "ordered t" "heights_pos t"
  shows "\<exists>t'. AVLTree_shl t key = Some t' \<and> ordered t' \<and> heights_pos t' \<and>
           set (inorder t') = insert key (set (inorder t))"
proof -
  from AVLTree_insert_pos[OF assms(2), of key] obtain ok t' where
    r: "AVLTree_insert t key = Some (ok, t')" "heights_pos t'" "\<not> ok \<longrightarrow> t' = t"
       "ok \<longrightarrow> set (inorder t') = insert key (set (inorder t)) \<and> size t' = Suc (size t)"
       "key \<notin> set (inorder t) \<longrightarrow> ok"
       "ordered t \<longrightarrow> ordered t' \<and> (ok \<longrightarrow> key \<notin> set (inorder t))"
    by blast
  with assms show ?thesis by (cases ok) (auto simp: AVLTree_shl_def)
qed

lemma AVLTree_shl_all_spec:
  "ordered t \<Longrightarrow> heights_pos t \<Longrightarrow>
   \<exists>t'. AVLTree_shl_all t keys = Some t' \<and> ordered t' \<and> heights_pos t' \<and>
     set (inorder t') = set (inorder t) \<union> set keys"
proof (induction keys arbitrary: t)
  case Nil
  then show ?case by simp
next
  case (Cons key keys)
  from AVLTree_shl_spec[OF Cons.prems, of key] obtain t1 where
    t1: "AVLTree_shl t key = Some t1" "ordered t1" "heights_pos t1"
        "set (inorder t1) = insert key (set (inorder t))"
    by blast
  from Cons.IH[OF t1(2,3)] t1(1,4) show ?case by auto
qed

lemma ordered_inorder_sort:
  assumes "ordered t" "set (inorder t) = set keys" "distinct keys"
  shows "inorder t = sort keys"
proof (rule strict_sorted_equal)
  show "sorted_wrt (<) (sort keys)" using assms(3) by (simp add: strict_sorted_iff)
  show "sorted_wrt (<) (inorder t)" using assms(1) by (simp add: ordered_iff_sorted)
  show "set (inorder t) = set (sort keys)" using assms(2) by simp
qed

text \<open>
  Claim C2.  After a sequence of distinct keys has been inserted into an empty BSTree
  or an empty AVL tree, the in-order traversal is the sorted sequence of these keys:
  strictly ascending, and with exactly the inserted keys.
\<close>

theorem C2_inorder_ascending:
  assumes "distinct keys"
  shows "inorder (foldl BSTree_shl Null keys) = sort keys \<and>
         (\<exists>avl. AVLTree_shl_all Null keys = Some avl \<and> inorder avl = sort keys) \<and>
         sorted_wrt (<) (sort keys) \<and> mset (sort keys) = mset keys"
proof -
  have "ordered (Null :: 'a BSTNode)" by simp
  from BSTree_shl_foldl[OF this, of keys] assms
  have b: "inorder (foldl BSTree_shl Null keys) = sort keys"
    by (intro ordered_inorder_sort) auto
  have "ordered (Null :: 'a AVLNode)" "heights_pos (Null :: 'a AVLNode)" by simp_all
  from AVLTree_shl_all_spec[OF this, of keys] obtain avl where
    avl: "AVLTree_shl_all Null keys = Some avl" "ordered avl" "set (inorder avl) = set keys"
    by auto
  from ordered_inorder_sort[OF avl(2,3) assms] avl(1)
  have a: "\<exists>avl. AVLTree_shl_all Null keys = Some avl \<and> inorder avl = sort keys" by simp
  from assms have "sorted_wrt (<) (sort keys)" by (simp add: strict_sorted_iff)
  with a b show ?thesis by simp
qed

theorem C2_inorder_ascending_witness:
  "distinct [50, 10, 2 :: nat] \<and>
   inorder (foldl BSTree_shl Null [50, 10, 2 :: nat]) = [2, 10, 50] \<and>
   AVLTree_shl_all Null [50, 10, 2 :: nat]
     = Some (Node (Node Null 2 1 Null) 10 2 (Node Null 50 1 Null)) \<and>
   inorder (Node (Node Null 2 1 Null) (10::nat) 2 (Node Null 50 1 Null)) = [2, 10, 50]"
  using C2_inorder_ascending[of "[50, 10, 2 :: nat]"]
  by (simp add: BSTree_shl_def AVLTree_shl_def)



section \<open>Null dereferences in \<^verbatim>\<open>balance\<close>\<close>

text \<open>
  Claim C10.  When the subtrees of a node satisfy the cached-height invariant,
  \<^verbatim>\<open>balance\<close> dereferences no null pointer: with a balance factor of \<open>2\<close> the left
  child exists, and when its own factor is negative (so that it is rotated left) its
  right child exists; with a factor of \<open>-2\<close> the right child exists, and when its own
  factor is positive its left child exists.  So \<^verbatim>\<open>balance\<close> returns a node.
\<close>

theorem C10_balance_children_exist:
  assumes "heights_ok l" "heights_ok r"
  shows "(bFactor (Node l k h r) = Some 2 \<longrightarrow>
            (\<exists>ll lk lh lr. l = Node ll lk lh lr \<and>
               (\<forall>lbf. bFactor l = Some lbf \<and> lbf < 0 \<longrightarrow> lr \<noteq> Null))) \<and>
         (bFactor (Node l k h r) = Some (- 2) \<longrightarrow>
            (\<exists>rl rk rh rr. r = Node rl rk rh rr \<and>
               (\<forall>rbf. bFactor r = Some rbf \<and> rbf > 0 \<longrightarrow> rl \<noteq> Null))) \<and>
         (\<exists>t'. balance (Node l k h r) = Some t' \<and> t' \<noteq> Null)"
proof (intro conjI impI)
  from assms have p: "heights_pos l" "heights_pos r" by (simp_all add: heights_ok_pos)
  from balance_pos[OF p, of k h]
  show "\<exists>t'. balance (Node l k h r) = Some t' \<and> t' \<noteq> Null" by blast
  {
    assume "bFactor (Node l k h r) = Some 2"
    with heights_pos_nonneg[OF p(2)] have "\<not> height_or_0 l \<le> 0" by simp
    then obtain ll lk lh lr where l: "l = Node ll lk lh lr" by (cases l) auto
    with p have q: "heights_pos ll" "heights_pos lr" by simp_all
    have "\<forall>lbf. bFactor l = Some lbf \<and> lbf < 0 \<longrightarrow> lr \<noteq> Null"
      using l heights_pos_nonneg[OF q(1)] by auto
    with l show "\<exists>ll lk lh lr. l = Node ll lk lh lr \<and>
               (\<forall>lbf. bFactor l = Some lbf \<and> lbf < 0 \<longrightarrow> lr \<noteq> Null)" by blast
  }
  {
    assume "bFactor (Node l k h r) = Some (- 2)"
    with heights_pos_nonneg[OF p(1)] have "\<not> height_or_0 r \<le> 0" by simp
    then obtain rl rk rh rr where r: "r = Node rl rk rh rr" by (cases r) auto
    with p have q: "heights_pos rl" "heights_pos rr" by simp_all
    have "\<forall>rbf. bFactor r = Some rbf \<and> rbf > 0 \<longrightarrow> rl \<noteq> Null"
      using r heights_pos_nonneg[OF q(2)] by auto
    with r show "\<exists>rl rk rh rr. r = Node rl rk rh rr \<and>
               (\<forall>rbf. bFactor r = Some rbf \<and> rbf > 0 \<longrightarrow> rl \<noteq> Null)" by blast
  }
qed

theorem C10_balance_children_exist_witness:
  "heights_ok (Node Null 1 2 (Node Null (2::nat) 1 Null)) \<and> heights_ok (Null :: nat AVLNode) \<and>
   bFactor (Node (Node Null 1 2 (Node Null (2::nat) 1 Null)) 3 1 Null) = Some 2 \<and>
   bFactor (Node Null 1 2 (Node Null (2::nat) 1 Null)) = Some (- 1) \<and>
   balance (Node (Node Null 1 2 (Node Null (2::nat) 1 Null)) 3 1 Null)
     = Some (Node (Node Null 1 1 Null) 2 2 (Node Null 3 1 Null))"
  using C10_balance_children_exist[of "Node Null 1 2 (Node Null (2::nat) 1 Null)" Null 3 1]
  by simp


section \<open>Heights after the two removal strategies\<close>

lemma height_findMax_assign_le:
  "findMax t = Some m \<Longrightarrow> height v \<le> height m \<Longrightarrow> height (findMax_assign t v) \<le> height t"
  by (induction t) (auto split: if_splits)

lemma height_findMax_assign_ge:
  "findMax t = Some m \<Longrightarrow> height m \<le> height v \<Longrightarrow> height t \<le> height (findMax_assign t v)"
  by (induction t) (auto split: if_splits)

lemma height_findMax_assign_sub:
  "findMax t = Some m \<Longrightarrow> height v \<le> height (findMax_assign t v)"
  by (induction t) (auto split: if_splits)

lemma height_findMax_assign_upper:
  "findMax t = Some m \<Longrightarrow>
   height (findMax_assign t v) \<le> max (height t) (height t - height m + height v)"
  by (induction t) (auto split: if_splits)

lemma removeByCopy_height:
  "removeByCopy t key = Some (res, t') \<Longrightarrow> height t' \<le> height t"
proof (induction t arbitrary: res t')
  case Null
  then show ?case by simp
next
  case (Node l k h r)
  consider (lt) "key < k" | (gt) "k < key" "\<not> key < k" | (eq) "\<not> key < k" "\<not> k < key"
    by fastforce
  then show ?case
  proof cases
    case lt
    obtain a la where l: "removeByCopy l key = Some (a, la)"
      using removeByCopy_Some[of l key] by auto
    from Node.IH(1)[OF l] lt l Node.prems show ?thesis by auto
  next
    case gt
    obtain a ra where r: "removeByCopy r key = Some (a, ra)"
      using removeByCopy_Some[of r key] by auto
    from Node.IH(2)[OF r] gt r Node.prems show ?thesis by auto
  next
    case eq
    show ?thesis
    proof (cases "l = Null")
      case True
      with eq Node.prems show ?thesis by auto
    next
      case False
      from findMax_Some[OF this] obtain ml mk mh where m: "findMax l = Some (Node ml mk mh Null)"
        by blast
      have "height (findMax_assign l ml) \<le> height l"
        by (rule height_findMax_assign_le[OF m]) simp
      with eq False m Node.prems show ?thesis by auto
    qed
  qed
qed

text \<open>
  Claim C3, as the specification states it, fails: removal by fusion hangs the right
  subtree of the removed node below the maximum of its left subtree, and the tree it
  leaves can be deeper than the one removal by copy leaves.  In the tree below, the
  node of key \<open>3\<close> has the children \<open>1 \<rightarrow> 2\<close> and \<open>4 \<rightarrow> 5\<close>; removal by copy leaves a
  tree of height \<open>3\<close>, in which the right subtree \<open>4 \<rightarrow> 5\<close> is still a child of the
  root, and removal by fusion leaves the chain \<open>1 \<rightarrow> 2 \<rightarrow> 4 \<rightarrow> 5\<close> of height \<open>4\<close>.
\<close>

theorem C3_fusion_deeper_counterexample:
  "BSTree_remove_mode
     (Node (Node Null 1 () (Node Null 2 () Null)) (3::nat) () (Node Null 4 () (Node Null 5 () Null)))
     3 COPY
   = Some (Some 3, Node (Node Null 1 () Null) 2 () (Node Null 4 () (Node Null 5 () Null))) \<and>
   BSTree_remove_mode
     (Node (Node Null 1 () (Node Null 2 () Null)) (3::nat) () (Node Null 4 () (Node Null 5 () Null)))
     3 FUSION
   = Some (Some 3, Node Null 1 () (Node Null 2 () (Node Null 4 () (Node Null 5 () Null)))) \<and>
   height (Node (Node Null 1 () Null) (2::nat) () (Node Null 4 () (Node Null 5 () Null))) = 3 \<and>
   height (Node Null (1::nat) () (Node Null 2 () (Node Null 4 () (Node Null 5 () Null)))) = 4 \<and>
   \<not> height (Node Null (1::nat) () (Node Null 2 () (Node Null 4 () (Node Null 5 () Null))))
       \<le> height (Node (Node Null 1 () Null) (2::nat) () (Node Null 4 () (Node Null 5 () Null)))"
  by simp

text \<open>
  Claim C3, amended.  When the node of the key has two children \<open>l\<close> and \<open>r\<close>, removal
  by copy is the strategy that does not deepen the tree: it leaves \<open>r\<close> in place and
  \<open>l\<close> without its maximum, which is no higher than \<open>l\<close>, so the node's subtree does
  not grow.  Removal by fusion leaves \<open>l\<close> with \<open>r\<close> below its maximum: a tree at least
  as high as \<open>l\<close>, higher than \<open>r\<close>, and at most as high as the two together.  The
  first part is stated at the node of the key; wherever that node lies in a tree
  \<open>t\<close>, removal by copy leaves a tree no higher than \<open>t\<close>.
\<close>

theorem C3_copy_not_deeper:
  assumes "l \<noteq> Null" "r \<noteq> Null"
  shows "(\<exists>l' mk f.
     BSTree_remove_mode (Node l k h r) k COPY = Some (Some k, Node l' mk h r) \<and>
     BSTree_remove_mode (Node l k h r) k FUSION = Some (Some k, f) \<and>
     height l' \<le> height l \<and>
     height (Node l' mk h r) \<le> height (Node l k h r) \<and>
     height l \<le> height f \<and> height r < height f \<and> height f \<le> height l + height r) \<and>
    (\<forall>res t'. BSTree_remove_mode t key COPY = Some (res, t') \<longrightarrow> height t' \<le> height t)"
proof -
  from findMax_Some[OF assms(1)] obtain ml mk mh where m: "findMax l = Some (Node ml mk mh Null)"
    by blast
  let ?l' = "findMax_assign l ml"
  let ?f = "findMax_assign l (Node ml mk mh r)"
  have c: "removeByCopy (Node l k h r) k = Some (Some k, Node ?l' mk h r)"
    using assms m by simp
  have f: "removeByFusion (Node l k h r) k = Some (Some k, ?f)"
    using assms m by simp
  have hr: "0 \<le> height r" "0 \<le> height ml" by (rule height_nonneg)+
  have 1: "height ?l' \<le> height l"
    by (rule height_findMax_assign_le[OF m]) simp
  have 2: "height l \<le> height ?f"
    using hr by (intro height_findMax_assign_ge[OF m]) auto
  have 3: "height r < height ?f"
    using height_findMax_assign_sub[OF m, of "Node ml mk mh r"] by simp
  have 4: "height ?f \<le> height l + height r"
    using height_findMax_assign_upper[OF m, of "Node ml mk mh r"] hr by auto
  have 5: "\<forall>res t'. BSTree_remove_mode t key COPY = Some (res, t') \<longrightarrow> height t' \<le> height t"
    by (simp add: removeByCopy_height)
  from c f 1 2 3 4 have "\<exists>l' mk f.
     BSTree_remove_mode (Node l k h r) k COPY = Some (Some k, Node l' mk h r) \<and>
     BSTree_remove_mode (Node l k h r) k FUSION = Some (Some k, f) \<and>
     height l' \<le> height l \<and>
     height (Node l' mk h r) \<le> height (Node l k h r) \<and>
     height l \<le> height f \<and> height r < height f \<and> height f \<le> height l + height r"
    by auto
  with 5 show ?thesis by blast
qed

theorem C3_copy_not_deeper_witness:
  "Node Null 1 () (Node Null (2::nat) () Null) \<noteq> Null \<and>
   Node Null 4 () (Node Null (5::nat) () Null) \<noteq> Null \<and>
   BSTree_remove_mode
     (Node (Node Null 1 () (Node Null 2 () Null)) (3::nat) () (Node Null 4 () (Node Null 5 () Null)))
     3 COPY
   = Some (Some 3, Node (Node Null 1 () Null) 2 () (Node Null 4 () (Node Null 5 () Null))) \<and>
   height (Node Null (1::nat) () Null) \<le> height (Node Null 1 () (Node Null (2::nat) () Null)) \<and>
   height (Node (Node Null 1 () Null) (2::nat) () (Node Null 4 () (Node Null 5 () Null)))
     \<le> height (Node (Node Null 1 () (Node Null 2 () Null)) (3::nat) () (Node Null 4 () (Node Null 5 () Null)))"
  using C3_copy_not_deeper
    [of "Node Null 1 () (Node Null (2::nat) () Null)" "Node Null 4 () (Node Null (5::nat) () Null)" 3 "()"
        "Node (Node Null 1 () (Node Null 2 () Null)) (3::nat) () (Node Null 4 () (Node Null 5 () Null))" 3]
  by simp



section \<open>Draining a tree with \<^verbatim>\<open>removeMin\<close> and \<^verbatim>\<open>removeMax\<close>\<close>

lemma size_findMin_assign:
  "findMin t = Some m \<Longrightarrow> size (findMin_assign t v) + size m = size t + size v"
  by (induction t) (auto split: if_splits)

lemma size_findMax_assign:
  "findMax t = Some m \<Longrightarrow> size (findMax_assign t v) + size m = size t + size v"
  by (induction t) (auto split: if_splits)

lemma removeByFusion_at_min:
  "removeByFusion (Node Null mk mh mr) mk = Some (Some mk, mr)"
  by simp

lemma removeByFusion_at_max:
  "removeByFusion (Node ml mk mh Null) mk = Some (Some mk, ml)"
proof (cases "ml = Null")
  case True
  then show ?thesis by simp
next
  case False
  from findMax_Some[OF this] obtain a b c where m: "findMax ml = Some (Node a b c Null)"
    by blast
  from findMax_assign_same[OF m] m False show ?thesis by simp
qed

lemma BSTree_removeMin_spec:
  assumes "root \<noteq> Null"
  shows "\<exists>k root'. BSTree_removeMin root = Some (Some k, root') \<and>
           inorder root = k # inorder root' \<and> size root = Suc (size root')"
proof -
  from findMin_Some[OF assms] obtain mk mh mr where m: "findMin root = Some (Node Null mk mh mr)"
    by blast
  from inorder_findMin[OF m] obtain post where
    "inorder root = inorder (Node Null mk mh mr) @ post"
    "\<forall>v. inorder (findMin_assign root v) = inorder v @ post"
    by blast
  moreover from size_findMin_assign[OF m, of mr]
  have "size root = Suc (size (findMin_assign root mr))" by simp
  ultimately show ?thesis
    using assms m by (simp add: BSTree_removeMin_def)
qed

lemma BSTree_removeMax_spec:
  assumes "root \<noteq> Null"
  shows "\<exists>k root'. BSTree_removeMax root = Some (Some k, root') \<and>
           inorder root = inorder root' @ [k] \<and> size root = Suc (size root')"
proof -
  from findMax_Some[OF assms] obtain ml mk mh where m: "findMax root = Some (Node ml mk mh Null)"
    by blast
  from inorder_findMax[OF m] obtain pre where
    "inorder root = pre @ inorder (Node ml mk mh Null)"
    "\<forall>v. inorder (findMax_assign root v) = pre @ inorder v"
    by blast
  moreover from size_findMax_assign[OF m, of ml]
  have "size root = Suc (size (findMax_assign root ml))" by simp
  ultimately show ?thesis
    using assms m removeByFusion_at_max[of ml mk mh]
    by (simp add: BSTree_removeMax_def del: removeByFusion.simps)
qed

lemma BSTree_removeMin_size:
  "BSTree_removeMin root = Some (Some k, root') \<Longrightarrow> root \<noteq> Null \<Longrightarrow> size root' < size root"
  using BSTree_removeMin_spec[of root] by auto

lemma BSTree_removeMax_size:
  "BSTree_removeMax root = Some (Some k, root') \<Longrightarrow> root \<noteq> Null \<Longrightarrow> size root' < size root"
  using BSTree_removeMax_spec[of root] by auto

text \<open>
  The caller's loop of claim C7: as long as the tree is not empty, \<^verbatim>\<open>removeMin\<close> and
  \<^verbatim>\<open>removeMax\<close> are called in turn (\<open>min_turn\<close> tells whose turn it is).  The result is
  the list of keys \<^verbatim>\<open>removeMin\<close> returned, the list of keys \<^verbatim>\<open>removeMax\<close> returned, each
  in the order of the calls, and the tree that is left; it is \<open>None\<close> when a call
  dereferences null or returns the null pointer on a tree that is not empty.  Each call
  removes one node, which is the termination argument.
\<close>

function BSTree_drain ::
  "bool \<Rightarrow> ('a::linorder, 'h) node \<Rightarrow> ('a list \<times> 'a list \<times> ('a, 'h) node) option" where
  "BSTree_drain min_turn root =
     (if isEmpty root then Some ([], [], root)
      else if min_turn then
        (case BSTree_removeMin root of
           Some (Some k, root') \<Rightarrow>
             (case BSTree_drain False root' of
                None \<Rightarrow> None
              | Some (mins, maxs, e) \<Rightarrow> Some (k # mins, maxs, e))
         | _ \<Rightarrow> None)
      else
        (case BSTree_removeMax root of
           Some (Some k, root') \<Rightarrow>
             (case BSTree_drain True root' of
                None \<Rightarrow> None
              | Some (mins, maxs, e) \<Rightarrow> Some (mins, k # maxs, e))
         | _ \<Rightarrow> None))"
  by pat_completeness auto
termination
  by (relation "measure (\<lambda>(min_turn, root). size root)")
    (auto simp: isEmpty_def BSTree_removeMin_size BSTree_removeMax_size)


lemma BSTree_drain_spec:
  "\<exists>mins maxs. BSTree_drain min_turn root = Some (mins, maxs, Null) \<and>
      mins @ rev maxs = inorder root"
proof (induction "size root" arbitrary: root min_turn rule: less_induct)
  case less
  show ?case
  proof (cases "root = Null")
    case True
    then show ?thesis by (subst BSTree_drain.simps) (simp add: isEmpty_def)
  next
    case False
    show ?thesis
    proof (cases min_turn)
      case True
      from BSTree_removeMin_spec[OF False] obtain k root' where
        r: "BSTree_removeMin root = Some (Some k, root')" "inorder root = k # inorder root'"
           "size root = Suc (size root')"
        by blast
      from less[of root' False] r(3) obtain mins maxs where
        "BSTree_drain False root' = Some (mins, maxs, Null)" "mins @ rev maxs = inorder root'"
        by auto
      with r False True show ?thesis
        by (subst BSTree_drain.simps) (simp add: isEmpty_def)
    next
      case mt: False
      from BSTree_removeMax_spec[OF False] obtain k root' where
        r: "BSTree_removeMax root = Some (Some k, root')" "inorder root = inorder root' @ [k]"
           "size root = Suc (size root')"
        by blast
      from less[of root' True] r(3) obtain mins maxs where
        "BSTree_drain True root' = Some (mins, maxs, Null)" "mins @ rev maxs = inorder root'"
        by auto
      with r False mt show ?thesis
        by (subst BSTree_drain.simps) (simp add: isEmpty_def)
    qed
  qed
qed


lemma rotateLeft_size: "rotateLeft t = Some t' \<Longrightarrow> size t' = size t"
  by (cases t rule: rotateLeft.cases) auto

lemma rotateRight_size: "rotateRight t = Some t' \<Longrightarrow> size t' = size t"
  by (cases t rule: rotateRight.cases) auto

lemma balance_size: "balance t = Some t' \<Longrightarrow> size t' = size t"
proof (cases t)
  case Null
  then show "balance t = Some t' \<Longrightarrow> size t' = size t" by simp
next
  case (Node l k h r)
  assume b: "balance t = Some t'"
  let ?h = "(if height_or_0 l > height_or_0 r then height_or_0 l else height_or_0 r) + 1"
  consider (L) "height_or_0 l - height_or_0 r = 2"
    | (R) "height_or_0 l - height_or_0 r = - 2"
    | (N) "height_or_0 l - height_or_0 r \<noteq> 2" "height_or_0 l - height_or_0 r \<noteq> - 2"
    by blast
  then show ?thesis
  proof cases
    case N
    with b Node show ?thesis by auto
  next
    case L
    show ?thesis
    proof (cases "\<exists>lbf. bFactor l = Some lbf \<and> lbf < 0")
      case False
      with b Node L have "rotateRight (Node l k ?h r) = Some t'"
        by (auto split: option.splits if_splits)
      from rotateRight_size[OF this] Node show ?thesis by simp
    next
      case True
      with b Node L obtain l' where
        "rotateLeft l = Some l'" "rotateRight (Node l' k ?h r) = Some t'"
        by (auto split: option.splits if_splits)
      with rotateLeft_size[of l l'] rotateRight_size[of "Node l' k ?h r" t'] Node
      show ?thesis by simp
    qed
  next
    case R
    show ?thesis
    proof (cases "\<exists>rbf. bFactor r = Some rbf \<and> rbf > 0")
      case False
      with b Node R have "rotateLeft (Node l k ?h r) = Some t'"
        by (auto split: option.splits if_splits)
      from rotateLeft_size[OF this] Node show ?thesis by simp
    next
      case True
      with b Node R obtain r' where
        "rotateRight r = Some r'" "rotateLeft (Node l k ?h r') = Some t'"
        by (auto split: option.splits if_splits)
      with rotateRight_size[of r r'] rotateLeft_size[of "Node l k ?h r'" t'] Node
      show ?thesis by simp
    qed
  qed
qed

lemma pullMax_size: "pullMax t = Some (m, t') \<Longrightarrow> size t = Suc (size t')"
proof (induction t arbitrary: m t')
  case Null
  then show ?case by simp
next
  case (Node l k h r)
  show ?case
  proof (cases "r = Null")
    case True
    with Node.prems show ?thesis by simp
  next
    case False
    with Node.prems obtain mx r' where
      r': "pullMax r = Some (mx, r')" "balance (Node l k h r') = Some t'"
      by (auto split: option.splits)
    from Node.IH(2)[OF r'(1)] balance_size[OF r'(2)] show ?thesis by simp
  qed
qed

lemma AVLTree_remove_at_min:
  "AVLTree_remove (Node Null mk mh mr) mk = Some (Some mk, mr)"
  by simp

lemma AVLTree_remove_at_max_size:
  assumes "AVLTree_remove (Node ml mk mh Null) mk = Some (res, t')"
  shows "res = Some mk \<and> size (Node ml mk mh Null) = Suc (size t')"
proof (cases "ml = Null")
  case True
  with assms show ?thesis by simp
next
  case False
  with assms obtain a b c d ml' where
    p: "pullMax ml = Some (Node a b c d, ml')" "balance (Node ml' b mh Null) = Some t'"
       "res = Some mk"
    by (auto split: option.splits node.splits)
  from pullMax_size[OF p(1)] balance_size[OF p(2)] p(3) show ?thesis by simp
qed

lemma AVLTree_remove_at_max_pos:
  assumes "heights_pos (Node ml mk mh Null)"
  shows "\<exists>t'. AVLTree_remove (Node ml mk mh Null) mk = Some (Some mk, t') \<and>
           heights_pos t' \<and> inorder t' = inorder ml"
proof (cases "ml = Null")
  case True
  then show ?thesis by simp
next
  case False
  from assms have hp: "heights_pos ml" by simp
  from pullMax_pos[OF hp False] obtain a b c d ml' where
    p: "pullMax ml = Some (Node a b c d, ml')" "heights_pos ml'" "inorder ml = inorder ml' @ [b]"
    by blast
  have "heights_pos (Null :: 'a AVLNode)" by simp
  from balance_pos[OF p(2) this, of b mh] obtain t' where
    "balance (Node ml' b mh Null) = Some t'" "heights_pos t'"
    "inorder t' = inorder ml' @ [b]"
    by auto
  with False p show ?thesis by simp
qed

lemma heights_pos_findMax:
  "findMax t = Some m \<Longrightarrow> heights_pos t \<Longrightarrow>
   heights_pos m \<and> (heights_pos v \<longrightarrow> heights_pos (findMax_assign t v))"
  by (induction t) (auto split: if_splits)

lemma heights_pos_findMin:
  "findMin t = Some m \<Longrightarrow> heights_pos t \<Longrightarrow>
   heights_pos m \<and> (heights_pos v \<longrightarrow> heights_pos (findMin_assign t v))"
  by (induction t) (auto split: if_splits)

lemma AVLTree_removeMin_spec:
  assumes "root \<noteq> Null"
  shows "\<exists>k root'. AVLTree_removeMin root = Some (Some k, root') \<and>
           inorder root = k # inorder root' \<and> size root = Suc (size root') \<and>
           (heights_pos root \<longrightarrow> heights_pos root')"
proof -
  from findMin_Some[OF assms] obtain mk mh mr where m: "findMin root = Some (Node Null mk mh mr)"
    by blast
  from inorder_findMin[OF m] obtain post where
    "inorder root = inorder (Node Null mk mh mr) @ post"
    "\<forall>v. inorder (findMin_assign root v) = inorder v @ post"
    by blast
  moreover from size_findMin_assign[OF m, of mr]
  have "size root = Suc (size (findMin_assign root mr))" by simp
  moreover have "heights_pos root \<longrightarrow> heights_pos (findMin_assign root mr)"
    using heights_pos_findMin[OF m, of mr] by auto
  ultimately show ?thesis
    using assms m by (simp add: AVLTree_removeMin_def)
qed

lemma AVLTree_removeMax_spec:
  assumes "root \<noteq> Null" "heights_pos root"
  shows "\<exists>k root'. AVLTree_removeMax root = Some (Some k, root') \<and>
           inorder root = inorder root' @ [k] \<and> heights_pos root'"
proof -
  from findMax_Some[OF assms(1)] obtain ml mk mh where m: "findMax root = Some (Node ml mk mh Null)"
    by blast
  from inorder_findMax[OF m] obtain pre where
    pre: "inorder root = pre @ inorder (Node ml mk mh Null)"
    "\<forall>v. inorder (findMax_assign root v) = pre @ inorder v"
    by blast
  from heights_pos_findMax[OF m assms(2)] have hm: "heights_pos (Node ml mk mh Null)" by simp
  from AVLTree_remove_at_max_pos[OF hm] obtain t' where
    t': "AVLTree_remove (Node ml mk mh Null) mk = Some (Some mk, t')" "heights_pos t'"
        "inorder t' = inorder ml"
    by blast
  from heights_pos_findMax[OF m assms(2), of t'] t'(2)
  have "heights_pos (findMax_assign root t')" by simp
  with pre t' assms m show ?thesis
    by (simp add: AVLTree_removeMax_def del: AVLTree_remove.simps)
qed

lemma AVLTree_removeMin_size:
  "AVLTree_removeMin root = Some (Some k, root') \<Longrightarrow> root \<noteq> Null \<Longrightarrow> size root' < size root"
  using AVLTree_removeMin_spec[of root] by auto

lemma AVLTree_removeMax_size:
  assumes "AVLTree_removeMax root = Some (Some k, root')" "root \<noteq> Null"
  shows "size root' < size root"
proof -
  from findMax_Some[OF assms(2)] obtain ml mk mh where m: "findMax root = Some (Node ml mk mh Null)"
    by blast
  with assms obtain res t' where
    t': "AVLTree_remove (Node ml mk mh Null) mk = Some (res, t')" "root' = findMax_assign root t'"
    by (auto simp: AVLTree_removeMax_def simp del: AVLTree_remove.simps split: option.splits)
  from AVLTree_remove_at_max_size[OF t'(1)] size_findMax_assign[OF m, of t'] t'(2)
  show ?thesis by simp
qed

function AVLTree_drain ::
  "bool \<Rightarrow> 'a::linorder AVLNode \<Rightarrow> ('a list \<times> 'a list \<times> 'a AVLNode) option" where
  "AVLTree_drain min_turn root =
     (if isEmpty root then Some ([], [], root)
      else if min_turn then
        (case AVLTree_removeMin root of
           Some (Some k, root') \<Rightarrow>
             (case AVLTree_drain False root' of
                None \<Rightarrow> None
              | Some (mins, maxs, e) \<Rightarrow> Some (k # mins, maxs, e))
         | _ \<Rightarrow> None)
      else
        (case AVLTree_removeMax root of
           Some (Some k, root') \<Rightarrow>
             (case AVLTree_drain True root' of
                None \<Rightarrow> None
              | Some (mins, maxs, e) \<Rightarrow> Some (mins, k # maxs, e))
         | _ \<Rightarrow> None))"
  by pat_completeness auto
termination
  by (relation "measure (\<lambda>(min_turn, root). size root)")
    (auto simp: isEmpty_def AVLTree_removeMin_size AVLTree_removeMax_size)

lemma AVLTree_drain_spec:
  "heights_pos root \<Longrightarrow>
   \<exists>mins maxs. AVLTree_drain min_turn root = Some (mins, maxs, Null) \<and>
      mins @ rev maxs = inorder root"
proof (induction "size root" arbitrary: root min_turn rule: less_induct)
  case less
  show ?case
  proof (cases "root = Null")
    case True
    then show ?thesis by (subst AVLTree_drain.simps) (simp add: isEmpty_def)
  next
    case False
    show ?thesis
    proof (cases min_turn)
      case True
      from AVLTree_removeMin_spec[OF False] less.prems obtain k root' where
        r: "AVLTree_removeMin root = Some (Some k, root')" "inorder root = k # inorder root'"
           "size root = Suc (size root')" "heights_pos root'"
        by blast
      from less.hyps[of root' False] r(3,4) obtain mins maxs where
        "AVLTree_drain False root' = Some (mins, maxs, Null)" "mins @ rev maxs = inorder root'"
        by auto
      with r False True show ?thesis
        by (subst AVLTree_drain.simps) (simp add: isEmpty_def)
    next
      case mt: False
      from AVLTree_removeMax_spec[OF False less.prems] obtain k root' where
        r: "AVLTree_removeMax root = Some (Some k, root')" "inorder root = inorder root' @ [k]"
           "heights_pos root'"
        by blast
      from AVLTree_removeMax_size[OF r(1) False] less.hyps[of root' True] r(3)
      obtain mins maxs where
        "AVLTree_drain True root' = Some (mins, maxs, Null)" "mins @ rev maxs = inorder root'"
        by auto
      with r False mt show ?thesis
        by (subst AVLTree_drain.simps) (simp add: isEmpty_def)
    qed
  qed
qed

lemma drained_sorted:
  fixes mins :: "'a::linorder list"
  assumes "sorted_wrt (<) (mins @ rev maxs)"
  shows "sorted_wrt (<) mins \<and> sorted_wrt (>) maxs \<and> distinct (mins @ maxs)"
proof -
  from assms have "sorted_wrt (<) mins" "sorted_wrt (<) (rev maxs)"
    by (simp_all add: sorted_wrt_append)
  moreover from assms have "distinct (mins @ rev maxs)"
    by (simp add: strict_sorted_iff)
  ultimately show ?thesis by (auto simp: sorted_wrt_rev)
qed

text \<open>
  Claim C7.  On a tree that satisfies the ordering invariant (and, for the AVL tree,
  has positive cached heights), calling \<^verbatim>\<open>removeMin\<close> and \<^verbatim>\<open>removeMax\<close> in turn until
  the tree is empty returns every stored key exactly once: the keys of \<^verbatim>\<open>removeMin\<close>,
  followed by those of \<^verbatim>\<open>removeMax\<close> in reverse, are the in-order sequence of the
  tree; the former ascend, the latter descend.  The tree that is left is empty, and
  \<^verbatim>\<open>getMax\<close> and \<^verbatim>\<open>getMin\<close> return the null pointer on it.
\<close>

theorem C7_drain_sorted:
  "(ordered bst \<longrightarrow>
      (\<exists>mins maxs e. BSTree_drain True bst = Some (mins, maxs, e) \<and>
         mins @ rev maxs = inorder bst \<and> mset (mins @ maxs) = mset (inorder bst) \<and>
         distinct (mins @ maxs) \<and> sorted_wrt (<) mins \<and> sorted_wrt (>) maxs \<and>
         isEmpty e \<and> getMax e = None \<and> getMin e = None)) \<and>
   (ordered avl \<and> heights_pos avl \<longrightarrow>
      (\<exists>mins maxs e. AVLTree_drain True avl = Some (mins, maxs, e) \<and>
         mins @ rev maxs = inorder avl \<and> mset (mins @ maxs) = mset (inorder avl) \<and>
         distinct (mins @ maxs) \<and> sorted_wrt (<) mins \<and> sorted_wrt (>) maxs \<and>
         isEmpty e \<and> getMax e = None \<and> getMin e = None))"
proof (intro conjI impI)
  assume o: "ordered bst"
  from BSTree_drain_spec[of True bst] obtain mins maxs where
    d: "BSTree_drain True bst = Some (mins, maxs, Null)" "mins @ rev maxs = inorder bst"
    by blast
  from o d(2) have "sorted_wrt (<) (mins @ rev maxs)" by (simp add: ordered_iff_sorted)
  from drained_sorted[OF this]
  have s: "sorted_wrt (<) mins" "sorted_wrt (>) maxs" "distinct (mins @ maxs)" by simp_all
  from d(2) have "mset (mins @ maxs) = mset (inorder bst)"
    by (metis mset_append mset_rev)
  with d s show "\<exists>mins maxs e. BSTree_drain True bst = Some (mins, maxs, e) \<and>
         mins @ rev maxs = inorder bst \<and> mset (mins @ maxs) = mset (inorder bst) \<and>
         distinct (mins @ maxs) \<and> sorted_wrt (<) mins \<and> sorted_wrt (>) maxs \<and>
         isEmpty e \<and> getMax e = None \<and> getMin e = None"
    by (simp add: isEmpty_def)
next
  assume a: "ordered avl \<and> heights_pos avl"
  then have "heights_pos avl" by simp
  from AVLTree_drain_spec[OF this, of True] obtain mins maxs where
    d: "AVLTree_drain True avl = Some (mins, maxs, Null)" "mins @ rev maxs = inorder avl"
    by blast
  from a d(2) have "sorted_wrt (<) (mins @ rev maxs)" by (simp add: ordered_iff_sorted)
  from drained_sorted[OF this]
  have s: "sorted_wrt (<) mins" "sorted_wrt (>) maxs" "distinct (mins @ maxs)" by simp_all
  from d(2) have "mset (mins @ maxs) = mset (inorder avl)"
    by (metis mset_append mset_rev)
  with d s show "\<exists>mins maxs e. AVLTree_drain True avl = Some (mins, maxs, e) \<and>
         mins @ rev maxs = inorder avl \<and> mset (mins @ maxs) = mset (inorder avl) \<and>
         distinct (mins @ maxs) \<and> sorted_wrt (<) mins \<and> sorted_wrt (>) maxs \<and>
         isEmpty e \<and> getMax e = None \<and> getMin e = None"
    by (simp add: isEmpty_def)
qed


theorem C7_drain_sorted_witness:
  "ordered (Node (Node (Node Null 1 () Null) 2 () Null) (3::nat) () (Node Null 4 () (Node Null 5 () Null))) \<and>
   BSTree_drain True
     (Node (Node (Node Null 1 () Null) 2 () Null) (3::nat) () (Node Null 4 () (Node Null 5 () Null)))
     = Some ([1, 2, 3], [5, 4], Null) \<and>
   ordered (Node (Node (Node Null 1 1 Null) 2 2 Null) (3::nat) 3 (Node Null 4 2 (Node Null 5 1 Null))) \<and>
   heights_pos (Node (Node (Node Null 1 1 Null) 2 2 Null) (3::nat) 3 (Node Null 4 2 (Node Null 5 1 Null))) \<and>
   AVLTree_drain True
     (Node (Node (Node Null 1 1 Null) 2 2 Null) (3::nat) 3 (Node Null 4 2 (Node Null 5 1 Null)))
     = Some ([1, 2, 3], [5, 4], Null)"
  using C7_drain_sorted
    [of "Node (Node (Node Null 1 () Null) 2 () Null) (3::nat) () (Node Null 4 () (Node Null 5 () Null))"
        "Node (Node (Node Null 1 1 Null) 2 2 Null) (3::nat) 3 (Node Null 4 2 (Node Null 5 1 Null))"]
  by (simp add: isEmpty_def BSTree_removeMin_def BSTree_removeMax_def
      AVLTree_removeMin_def AVLTree_removeMax_def)



section \<open>Termination\<close>

text \<open>
  For a function \<open>f\<close>, \<open>f_rel y x\<close> says that the call \<open>f x\<close> makes the recursive call
  \<open>f y\<close>, and \<open>f_dom x\<close> that \<open>x\<close> is accessible under it.
\<close>

lemma destroy_total: "destroy_dom t"
proof (induction t)
  case Null
  show ?case by (rule accpI) (auto elim: destroy_rel.cases)
next
  case (Node l k h r)
  then show ?case by - (rule accpI, auto elim: destroy_rel.cases)
qed

lemma get_total: "get_dom (t, key)"
proof (induction t)
  case Null
  show ?case by (rule accpI) (auto elim: get_rel.cases)
next
  case (Node l k h r)
  then show ?case by - (rule accpI, auto elim: get_rel.cases)
qed

lemma getMax_total: "getMax_dom t"
proof (induction t)
  case Null
  show ?case by (rule accpI) (auto elim: getMax_rel.cases)
next
  case (Node l k h r)
  then show ?case by - (rule accpI, auto elim: getMax_rel.cases)
qed

lemma getMin_total: "getMin_dom t"
proof (induction t)
  case Null
  show ?case by (rule accpI) (auto elim: getMin_rel.cases)
next
  case (Node l k h r)
  then show ?case by - (rule accpI, auto elim: getMin_rel.cases)
qed

lemma BSTree_insert_total: "BSTree_insert_dom (t, key)"
proof (induction t)
  case Null
  show ?case by (rule accpI) (auto elim: BSTree_insert_rel.cases)
next
  case (Node l k h r)
  then show ?case by - (rule accpI, auto elim: BSTree_insert_rel.cases)
qed

lemma findMax_total: "findMax_dom t"
proof (induction t)
  case Null
  show ?case by (rule accpI) (auto elim: findMax_rel.cases)
next
  case (Node l k h r)
  then show ?case by - (rule accpI, auto elim: findMax_rel.cases)
qed

lemma findMin_total: "findMin_dom t"
proof (induction t)
  case Null
  show ?case by (rule accpI) (auto elim: findMin_rel.cases)
next
  case (Node l k h r)
  then show ?case by - (rule accpI, auto elim: findMin_rel.cases)
qed

lemma removeByCopy_total: "removeByCopy_dom (t, key)"
proof (induction t)
  case Null
  show ?case by (rule accpI) (auto elim: removeByCopy_rel.cases)
next
  case (Node l k h r)
  then show ?case by - (rule accpI, auto elim: removeByCopy_rel.cases)
qed

lemma removeByFusion_total: "removeByFusion_dom (t, key)"
proof (induction t)
  case Null
  show ?case by (rule accpI) (auto elim: removeByFusion_rel.cases)
next
  case (Node l k h r)
  then show ?case by - (rule accpI, auto elim: removeByFusion_rel.cases)
qed

lemma inorder_total: "inorder_dom t"
proof (induction t)
  case Null
  show ?case by (rule accpI) (auto elim: inorder_rel.cases)
next
  case (Node l k h r)
  then show ?case by - (rule accpI, auto elim: inorder_rel.cases)
qed

lemma preorder_total: "preorder_dom t"
proof (induction t)
  case Null
  show ?case by (rule accpI) (auto elim: preorder_rel.cases)
next
  case (Node l k h r)
  then show ?case by - (rule accpI, auto elim: preorder_rel.cases)
qed

lemma postorder_total: "postorder_dom t"
proof (induction t)
  case Null
  show ?case by (rule accpI) (auto elim: postorder_rel.cases)
next
  case (Node l k h r)
  then show ?case by - (rule accpI, auto elim: postorder_rel.cases)
qed

lemma AVLTree_insert_total: "AVLTree_insert_dom (t, key)"
proof (induction t)
  case Null
  show ?case by (rule accpI) (auto elim: AVLTree_insert_rel.cases)
next
  case (Node l k h r)
  then show ?case by - (rule accpI, auto elim: AVLTree_insert_rel.cases)
qed

lemma AVLTree_remove_total: "AVLTree_remove_dom (t, key)"
proof (induction t)
  case Null
  show ?case by (rule accpI) (auto elim: AVLTree_remove_rel.cases)
next
  case (Node l k h r)
  then show ?case by - (rule accpI, auto elim: AVLTree_remove_rel.cases)
qed

lemma pullMax_total: "pullMax_dom t"
proof (induction t)
  case Null
  show ?case by (rule accpI) (auto elim: pullMax_rel.cases)
next
  case (Node l k h r)
  then show ?case by - (rule accpI, auto elim: pullMax_rel.cases)
qed

lemma findMax_assign_total: "findMax_assign_dom (t, v)"
proof (induction t)
  case Null
  show ?case by (rule accpI) (auto elim: findMax_assign_rel.cases)
next
  case (Node l k h r)
  then show ?case by - (rule accpI, auto elim: findMax_assign_rel.cases)
qed

lemma findMin_assign_total: "findMin_assign_dom (t, v)"
proof (induction t)
  case Null
  show ?case by (rule accpI) (auto elim: findMin_assign_rel.cases)
next
  case (Node l k h r)
  then show ?case by - (rule accpI, auto elim: findMin_assign_rel.cases)
qed


lemma BSTree_removeMax_Some: "\<exists>res. BSTree_removeMax root = Some res"
proof (cases "root = Null")
  case True
  then show ?thesis by (simp add: BSTree_removeMax_def)
next
  case False
  from BSTree_removeMax_spec[OF this] show ?thesis by blast
qed

lemma BSTree_removeMin_Some: "\<exists>res. BSTree_removeMin root = Some res"
proof (cases "root = Null")
  case True
  then show ?thesis by (simp add: BSTree_removeMin_def)
next
  case False
  from BSTree_removeMin_spec[OF this] show ?thesis by blast
qed

lemma AVLTree_removeMax_Some: "heights_pos root \<Longrightarrow> \<exists>res. AVLTree_removeMax root = Some res"
proof (cases "root = Null")
  case True
  then show ?thesis by (simp add: AVLTree_removeMax_def)
next
  case False
  assume "heights_pos root"
  from AVLTree_removeMax_spec[OF False this] show ?thesis by blast
qed

lemma AVLTree_removeMin_Some: "\<exists>res. AVLTree_removeMin root = Some res"
proof (cases "root = Null")
  case True
  then show ?thesis by (simp add: AVLTree_removeMin_def)
next
  case False
  from AVLTree_removeMin_spec[OF this] show ?thesis by blast
qed

text \<open>
  Claim C9.  Every operation runs to completion on every tree.  For each recursive
  function of the model (\<^verbatim>\<open>destroy\<close>, \<^verbatim>\<open>get\<close>, the loops of \<^verbatim>\<open>getMax\<close> and \<^verbatim>\<open>getMin\<close>,
  \<^verbatim>\<open>findMax\<close>, \<^verbatim>\<open>findMin\<close>, the two removals, the traversals, the insertions, the
  AVL removal and \<^verbatim>\<open>pullMax\<close>) every argument is in the accessible part of the call
  relation: no chain of recursive calls is infinite.  Every removal of the BSTree
  returns a result, and so does every operation of the AVL tree on a tree whose cached
  heights are positive.
\<close>

theorem C9_operations_terminate:
  fixes t :: "('a::linorder, 'h) node" and bst :: "'a BSTNode" and avl :: "'a AVLNode"
  shows
  "destroy_dom t \<and> get_dom (t, key) \<and> getMax_dom t \<and> getMin_dom t \<and>
   findMax_dom t \<and> findMin_dom t \<and> findMax_assign_dom (t, v) \<and> findMin_assign_dom (t, v) \<and>
   removeByCopy_dom (t, key) \<and> removeByFusion_dom (t, key) \<and>
   inorder_dom t \<and> preorder_dom t \<and> postorder_dom t \<and>
   BSTree_insert_dom (bst, key) \<and>
   AVLTree_insert_dom (avl, key) \<and> AVLTree_remove_dom (avl, key) \<and> pullMax_dom avl \<and>
   (\<exists>res. BSTree_remove_mode t key mode = Some res) \<and>
   (\<exists>res. BSTree_remove t key = Some res) \<and>
   (\<exists>res. BSTree_removeMax t = Some res) \<and>
   (\<exists>res. BSTree_removeMin t = Some res) \<and>
   clear t = Null \<and>
   (heights_pos avl \<longrightarrow>
      (\<exists>res. AVLTree_insert avl key = Some res) \<and>
      (\<exists>res. AVLTree_remove avl key = Some res) \<and>
      (\<exists>res. AVLTree_removeMax avl = Some res) \<and>
      (\<exists>res. AVLTree_removeMin avl = Some res) \<and>
      (avl \<noteq> Null \<longrightarrow> (\<exists>res. pullMax avl = Some res)))"
proof -
  have dom: "destroy_dom t" "get_dom (t, key)" "getMax_dom t" "getMin_dom t"
    "findMax_dom t" "findMin_dom t" "findMax_assign_dom (t, v)" "findMin_assign_dom (t, v)"
    "removeByCopy_dom (t, key)" "removeByFusion_dom (t, key)"
    "inorder_dom t" "preorder_dom t" "postorder_dom t"
    by (rule destroy_total get_total getMax_total getMin_total findMax_total findMin_total
        findMax_assign_total findMin_assign_total removeByCopy_total removeByFusion_total
        inorder_total preorder_total postorder_total)+
  have dom2: "BSTree_insert_dom (bst, key)" "AVLTree_insert_dom (avl, key)"
    "AVLTree_remove_dom (avl, key)" "pullMax_dom avl"
    by (rule BSTree_insert_total AVLTree_insert_total AVLTree_remove_total pullMax_total)+
  have bst: "\<exists>res. BSTree_remove_mode t key mode = Some res"
    "\<exists>res. BSTree_remove t key = Some res"
    "\<exists>res. BSTree_removeMax t = Some res" "\<exists>res. BSTree_removeMin t = Some res"
    using removeByCopy_Some[of t key] removeByFusion_Some[of t key]
      BSTree_removeMax_Some[of t] BSTree_removeMin_Some[of t]
    by (cases mode; simp add: BSTree_remove_def)+
  have avl: "heights_pos avl \<longrightarrow>
      (\<exists>res. AVLTree_insert avl key = Some res) \<and>
      (\<exists>res. AVLTree_remove avl key = Some res) \<and>
      (\<exists>res. AVLTree_removeMax avl = Some res) \<and>
      (\<exists>res. AVLTree_removeMin avl = Some res) \<and>
      (avl \<noteq> Null \<longrightarrow> (\<exists>res. pullMax avl = Some res))"
  proof
    assume hp: "heights_pos avl"
    from AVLTree_insert_pos[OF hp, of key] have 1: "\<exists>res. AVLTree_insert avl key = Some res"
      by blast
    from AVLTree_remove_pos[OF hp, of key] have 2: "\<exists>res. AVLTree_remove avl key = Some res"
      by blast
    have 3: "avl \<noteq> Null \<longrightarrow> (\<exists>res. pullMax avl = Some res)"
      using pullMax_pos[OF hp] by blast
    from 1 2 3 AVLTree_removeMax_Some[OF hp] AVLTree_removeMin_Some[of avl]
    show "(\<exists>res. AVLTree_insert avl key = Some res) \<and>
      (\<exists>res. AVLTree_remove avl key = Some res) \<and>
      (\<exists>res. AVLTree_removeMax avl = Some res) \<and>
      (\<exists>res. AVLTree_removeMin avl = Some res) \<and>
      (avl \<noteq> Null \<longrightarrow> (\<exists>res. pullMax avl = Some res))"
      by simp
  qed
  from dom dom2 bst avl show ?thesis by (simp add: clear_def)
qed

theorem C9_operations_terminate_witness:
  "heights_pos (Node (Node Null 1 1 Null) (2::nat) 2 Null) \<and>
   AVLTree_remove_dom (Node (Node Null 1 1 Null) (2::nat) 2 Null, 2) \<and>
   pullMax_dom (Node (Node Null 1 1 Null) (2::nat) 2 Null) \<and>
   findMax_dom (Node (Node Null 1 () Null) (2::nat) () Null) \<and>
   findMin_dom (Node (Node Null 1 () Null) (2::nat) () Null) \<and>
   AVLTree_remove (Node (Node Null 1 1 Null) (2::nat) 2 Null) 2 = Some (Some 2, Node Null 1 1 Null) \<and>
   pullMax (Node (Node Null 1 1 Null) (2::nat) 2 Null)
     = Some (Node (Node Null 1 1 Null) 2 2 Null, Node Null 1 1 Null)"
  using C9_operations_terminate
    [of "Node (Node Null 1 () Null) (2::nat) () Null" 2 Null Null
        "Node (Node Null 1 1 Null) (2::nat) 2 Null" COPY]
  by simp



section \<open>The AVL invariant\<close>

lemma AVL_inv_Node:
  "AVL_inv (Node l k h r) \<longleftrightarrow>
     AVL_inv l \<and> AVL_inv r \<and> h = 1 + max (height l) (height r) \<and> \<bar>height l - height r\<bar> \<le> 1"
  by (auto simp: AVL_inv_def)

lemma AVL_inv_Null: "AVL_inv Null"
  by (simp add: AVL_inv_def)

lemma AVL_inv_cached: "AVL_inv t \<Longrightarrow> height_or_0 t = height t"
  by (simp add: AVL_inv_def heights_ok_cached)

lemma height_0_Null: "height t \<le> 0 \<Longrightarrow> t = Null"
proof (cases t)
  case Null
  then show ?thesis by simp
next
  case (Node l k h r)
  assume "height t \<le> 0"
  with Node height_nonneg[of l] show ?thesis by simp
qed

lemma rotateRight_AVL:
  assumes "AVL_inv (Node ll lk lh lr)" "AVL_inv r"
    "height (Node ll lk lh lr) = height r + 2" "height lr \<le> height ll"
  shows "\<exists>t'. rotateRight (Node (Node ll lk lh lr) k h r) = Some t' \<and> AVL_inv t' \<and>
     (height t' = height r + 2 \<or> height t' = height r + 3)"
  using assms by (auto simp: AVL_inv_Node AVL_inv_cached max_def split: if_splits)

lemma rotateLeft_AVL:
  assumes "AVL_inv l" "AVL_inv (Node rl rk rh rr)"
    "height (Node rl rk rh rr) = height l + 2" "height rl \<le> height rr"
  shows "\<exists>t'. rotateLeft (Node l k h (Node rl rk rh rr)) = Some t' \<and> AVL_inv t' \<and>
     (height t' = height l + 2 \<or> height t' = height l + 3)"
  using assms by (auto simp: AVL_inv_Node AVL_inv_cached max_def split: if_splits)

lemma rotateLeftRight_AVL:
  assumes "AVL_inv (Node ll lk lh (Node a b c d))" "AVL_inv r"
    "height (Node ll lk lh (Node a b c d)) = height r + 2" "height ll < height (Node a b c d)"
  shows "\<exists>l' t'. rotateLeft (Node ll lk lh (Node a b c d)) = Some l' \<and>
     rotateRight (Node l' k h r) = Some t' \<and> AVL_inv t' \<and> height t' = height r + 2"
  using assms by (auto simp: AVL_inv_Node AVL_inv_cached max_def split: if_splits)

lemma rotateRightLeft_AVL:
  assumes "AVL_inv l" "AVL_inv (Node (Node a b c d) rk rh rr)"
    "height (Node (Node a b c d) rk rh rr) = height l + 2" "height rr < height (Node a b c d)"
  shows "\<exists>r' t'. rotateRight (Node (Node a b c d) rk rh rr) = Some r' \<and>
     rotateLeft (Node l k h r') = Some t' \<and> AVL_inv t' \<and> height t' = height l + 2"
  using assms by (auto simp: AVL_inv_Node AVL_inv_cached max_def split: if_splits)


lemma balance_AVL:
  assumes l: "AVL_inv l" and r: "AVL_inv r" and d: "\<bar>height l - height r\<bar> \<le> 2"
  shows "\<exists>t'. balance (Node l k h r) = Some t' \<and> AVL_inv t' \<and>
     (height t' = 1 + max (height l) (height r) \<or>
      (\<bar>height l - height r\<bar> = 2 \<and> height t' = max (height l) (height r)))"
proof -
  let ?h = "(if height_or_0 l > height_or_0 r then height_or_0 l else height_or_0 r) + 1"
  have c: "height_or_0 l = height l" "height_or_0 r = height r"
    using l r by (simp_all add: AVL_inv_cached)
  consider (L) "height l = height r + 2" | (R) "height r = height l + 2"
    | (N) "\<bar>height l - height r\<bar> \<le> 1"
    using d by linarith
  then show ?thesis
  proof cases
    case N
    then have "balance (Node l k h r) = Some (Node l k ?h r)"
      using c by auto
    moreover have "AVL_inv (Node l k ?h r)"
      using l r N c by (auto simp: AVL_inv_Node)
    ultimately show ?thesis by simp
  next
    case L
    with height_nonneg[of r] have "\<not> height l \<le> 0" by simp
    then obtain ll lk lh lr where ln: "l = Node ll lk lh lr" by (cases l) auto
    from l ln have sub: "AVL_inv ll" "AVL_inv lr" by (simp_all add: AVL_inv_Node)
    then have cs: "height_or_0 ll = height ll" "height_or_0 lr = height lr"
      by (simp_all add: AVL_inv_cached)
    show ?thesis
    proof (cases "height ll < height lr")
      case False
      then have le: "height lr \<le> height ll" by simp
      from rotateRight_AVL[OF l[unfolded ln] r L[unfolded ln] le, of k ?h] obtain t' where
        t': "rotateRight (Node (Node ll lk lh lr) k ?h r) = Some t'" "AVL_inv t'"
            "height t' = height r + 2 \<or> height t' = height r + 3"
        by blast
      from t'(1) L False c cs ln have "balance (Node l k h r) = Some t'"
        by simp
      with t'(2,3) L show ?thesis by auto
    next
      case True
      with height_nonneg[of ll] have "\<not> height lr \<le> 0" by simp
      then obtain a b c' d' where lrn: "lr = Node a b c' d'" by (cases lr) auto
      from rotateLeftRight_AVL[OF l[unfolded ln lrn] r L[unfolded ln lrn] True[unfolded lrn], of k ?h]
      obtain l' t' where
        t': "rotateLeft (Node ll lk lh (Node a b c' d')) = Some l'"
            "rotateRight (Node l' k ?h r) = Some t'" "AVL_inv t'" "height t' = height r + 2"
        by blast
      from t'(1,2) L True c cs ln lrn have "balance (Node l k h r) = Some t'"
        by (simp del: rotateLeft.simps rotateRight.simps)
      with t'(3,4) L show ?thesis by auto
    qed
  next
    case R
    with height_nonneg[of l] have "\<not> height r \<le> 0" by simp
    then obtain rl rk rh rr where rn: "r = Node rl rk rh rr" by (cases r) auto
    from r rn have sub: "AVL_inv rl" "AVL_inv rr" by (simp_all add: AVL_inv_Node)
    then have cs: "height_or_0 rl = height rl" "height_or_0 rr = height rr"
      by (simp_all add: AVL_inv_cached)
    show ?thesis
    proof (cases "height rr < height rl")
      case False
      then have le: "height rl \<le> height rr" by simp
      from rotateLeft_AVL[OF l r[unfolded rn] R[unfolded rn] le, of k ?h] obtain t' where
        t': "rotateLeft (Node l k ?h (Node rl rk rh rr)) = Some t'" "AVL_inv t'"
            "height t' = height l + 2 \<or> height t' = height l + 3"
        by blast
      from t'(1) R False c cs rn have "balance (Node l k h r) = Some t'"
        by simp
      with t'(2,3) R show ?thesis by auto
    next
      case True
      with height_nonneg[of rr] have "\<not> height rl \<le> 0" by simp
      then obtain a b c' d' where rln: "rl = Node a b c' d'" by (cases rl) auto
      from rotateRightLeft_AVL[OF l r[unfolded rn rln] R[unfolded rn rln] True[unfolded rln], of k ?h]
      obtain r' t' where
        t': "rotateRight (Node (Node a b c' d') rk rh rr) = Some r'"
            "rotateLeft (Node l k ?h r') = Some t'" "AVL_inv t'" "height t' = height l + 2"
        by blast
      from t'(1,2) R True c cs rn rln have "balance (Node l k h r) = Some t'"
        by (simp del: rotateLeft.simps rotateRight.simps)
      with t'(3,4) R show ?thesis by auto
    qed
  qed
qed


lemma AVLTree_insert_AVL:
  "AVL_inv t \<Longrightarrow>
   \<exists>ok t'. AVLTree_insert t key = Some (ok, t') \<and> AVL_inv t' \<and>
     (height t' = height t \<or> height t' = height t + 1)"
proof (induction t)
  case Null
  show ?case by (auto simp: AVL_inv_Node AVL_inv_Null)
next
  case (Node l k h r)
  from Node.prems have sub: "AVL_inv l" "AVL_inv r" "\<bar>height l - height r\<bar> \<le> 1"
    by (simp_all add: AVL_inv_Node)
  consider (eq) "key = k" | (lt) "key < k" | (gt) "k < key" using less_linear[of key k] by blast
  then show ?case
  proof cases
    case eq
    with Node.prems show ?thesis by auto
  next
    case lt
    from Node.IH(1)[OF sub(1)] obtain ok l' where
      l': "AVLTree_insert l key = Some (ok, l')" "AVL_inv l'"
          "height l' = height l \<or> height l' = height l + 1"
      by blast
    show ?thesis
    proof (cases ok)
      case False
      from AVLTree_insert_pos[OF heights_ok_pos, of l key] sub(1) l'(1) False
      have "l' = l" by (auto simp: AVL_inv_def)
      with l'(1) False lt Node.prems show ?thesis by auto
    next
      case True
      from l'(3) sub(3) have "\<bar>height l' - height r\<bar> \<le> 2" by linarith
      from balance_AVL[OF l'(2) sub(2) this, of k h] obtain t' where
        t': "balance (Node l' k h r) = Some t'" "AVL_inv t'"
            "height t' = 1 + max (height l') (height r) \<or>
             (\<bar>height l' - height r\<bar> = 2 \<and> height t' = max (height l') (height r))"
        by blast
      from t'(3) l'(3) sub(3)
      have "height t' = height (Node l k h r) \<or> height t' = height (Node l k h r) + 1"
        by (auto simp: max_def split: if_splits)
      with t'(1,2) l'(1) True lt show ?thesis by (auto simp del: balance.simps)
    qed
  next
    case gt
    then have ngt: "\<not> key < k" "key \<noteq> k" by auto
    from Node.IH(2)[OF sub(2)] obtain ok r' where
      r': "AVLTree_insert r key = Some (ok, r')" "AVL_inv r'"
          "height r' = height r \<or> height r' = height r + 1"
      by blast
    show ?thesis
    proof (cases ok)
      case False
      from AVLTree_insert_pos[OF heights_ok_pos, of r key] sub(2) r'(1) False
      have "r' = r" by (auto simp: AVL_inv_def)
      with r'(1) False gt ngt Node.prems show ?thesis by auto
    next
      case True
      from r'(3) sub(3) have "\<bar>height l - height r'\<bar> \<le> 2" by linarith
      from balance_AVL[OF sub(1) r'(2) this, of k h] obtain t' where
        t': "balance (Node l k h r') = Some t'" "AVL_inv t'"
            "height t' = 1 + max (height l) (height r') \<or>
             (\<bar>height l - height r'\<bar> = 2 \<and> height t' = max (height l) (height r'))"
        by blast
      from t'(3) r'(3) sub(3)
      have "height t' = height (Node l k h r) \<or> height t' = height (Node l k h r) + 1"
        by (auto simp: max_def split: if_splits)
      with t'(1,2) r'(1) True gt ngt show ?thesis by (auto simp del: balance.simps)
    qed
  qed
qed

lemma pullMax_AVL:
  "AVL_inv t \<Longrightarrow> t \<noteq> Null \<Longrightarrow>
   \<exists>ml mk mh mr t'. pullMax t = Some (Node ml mk mh mr, t') \<and> AVL_inv t' \<and>
      (height t' = height t \<or> height t' = height t - 1)"
proof (induction t)
  case Null
  then show ?case by simp
next
  case (Node l k h r)
  from Node.prems have sub: "AVL_inv l" "AVL_inv r" "\<bar>height l - height r\<bar> \<le> 1"
    by (simp_all add: AVL_inv_Node)
  show ?case
  proof (cases "r = Null")
    case True
    with sub height_nonneg[of l] show ?thesis by simp
  next
    case False
    from Node.IH(2)[OF sub(2) False] obtain ml mk mh mr r' where
      r': "pullMax r = Some (Node ml mk mh mr, r')" "AVL_inv r'"
          "height r' = height r \<or> height r' = height r - 1"
      by blast
    from r'(3) sub(3) have "\<bar>height l - height r'\<bar> \<le> 2" by linarith
    from balance_AVL[OF sub(1) r'(2) this, of k h] obtain t' where
      t': "balance (Node l k h r') = Some t'" "AVL_inv t'"
          "height t' = 1 + max (height l) (height r') \<or>
           (\<bar>height l - height r'\<bar> = 2 \<and> height t' = max (height l) (height r'))"
      by blast
    from t'(3) r'(3) sub(3)
    have "height t' = height (Node l k h r) \<or> height t' = height (Node l k h r) - 1"
      by (auto simp: max_def split: if_splits)
    with t'(1,2) r'(1) False show ?thesis by (simp del: balance.simps)
  qed
qed

lemma AVLTree_remove_AVL:
  "AVL_inv t \<Longrightarrow>
   \<exists>res t'. AVLTree_remove t key = Some (res, t') \<and> AVL_inv t' \<and>
     (height t' = height t \<or> height t' = height t - 1)"
proof (induction t)
  case Null
  show ?case by (simp add: AVL_inv_Null)
next
  case (Node l k h r)
  from Node.prems have sub: "AVL_inv l" "AVL_inv r" "\<bar>height l - height r\<bar> \<le> 1"
    by (simp_all add: AVL_inv_Node)
  consider (lt) "key < k" | (gt) "k < key" | (eq) "key = k" using less_linear[of key k] by blast
  then show ?case
  proof cases
    case lt
    from Node.IH(1)[OF sub(1)] obtain res l' where
      l': "AVLTree_remove l key = Some (res, l')" "AVL_inv l'"
          "height l' = height l \<or> height l' = height l - 1"
      by blast
    show ?thesis
    proof (cases "res = None")
      case True
      from AVLTree_remove_pos[OF heights_ok_pos, of l key] sub(1) l'(1) True
      have "l' = l" by (auto simp: AVL_inv_def)
      with l'(1) True lt Node.prems show ?thesis by simp
    next
      case False
      then obtain y where y: "res = Some y" by auto
      from l'(3) sub(3) have "\<bar>height l' - height r\<bar> \<le> 2" by linarith
      from balance_AVL[OF l'(2) sub(2) this, of k h] obtain t' where
        t': "balance (Node l' k h r) = Some t'" "AVL_inv t'"
            "height t' = 1 + max (height l') (height r) \<or>
             (\<bar>height l' - height r\<bar> = 2 \<and> height t' = max (height l') (height r))"
        by blast
      from t'(3) l'(3) sub(3)
      have "height t' = height (Node l k h r) \<or> height t' = height (Node l k h r) - 1"
        by (auto simp: max_def split: if_splits)
      with t'(1,2) l'(1) y lt show ?thesis by (simp del: balance.simps)
    qed
  next
    case gt
    then have ngt: "\<not> key < k" by simp
    from Node.IH(2)[OF sub(2)] obtain res r' where
      r': "AVLTree_remove r key = Some (res, r')" "AVL_inv r'"
          "height r' = height r \<or> height r' = height r - 1"
      by blast
    show ?thesis
    proof (cases "res = None")
      case True
      from AVLTree_remove_pos[OF heights_ok_pos, of r key] sub(2) r'(1) True
      have "r' = r" by (auto simp: AVL_inv_def)
      with r'(1) True gt ngt Node.prems show ?thesis by simp
    next
      case False
      then obtain y where y: "res = Some y" by auto
      from r'(3) sub(3) have "\<bar>height l - height r'\<bar> \<le> 2" by linarith
      from balance_AVL[OF sub(1) r'(2) this, of k h] obtain t' where
        t': "balance (Node l k h r') = Some t'" "AVL_inv t'"
            "height t' = 1 + max (height l) (height r') \<or>
             (\<bar>height l - height r'\<bar> = 2 \<and> height t' = max (height l) (height r'))"
        by blast
      from t'(3) r'(3) sub(3)
      have "height t' = height (Node l k h r) \<or> height t' = height (Node l k h r) - 1"
        by (auto simp: max_def split: if_splits)
      with t'(1,2) r'(1) y gt ngt show ?thesis by (simp del: balance.simps)
    qed
  next
    case eq
    show ?thesis
    proof (cases "l = Null")
      case True
      with eq sub height_nonneg[of r] show ?thesis by simp
    next
      case False
      from pullMax_AVL[OF sub(1) False] obtain ml mk mh mr l' where
        l': "pullMax l = Some (Node ml mk mh mr, l')" "AVL_inv l'"
            "height l' = height l \<or> height l' = height l - 1"
        by blast
      from l'(3) sub(3) have "\<bar>height l' - height r\<bar> \<le> 2" by linarith
      from balance_AVL[OF l'(2) sub(2) this, of mk h] obtain t' where
        t': "balance (Node l' mk h r) = Some t'" "AVL_inv t'"
            "height t' = 1 + max (height l') (height r) \<or>
             (\<bar>height l' - height r\<bar> = 2 \<and> height t' = max (height l') (height r))"
        by blast
      from t'(3) l'(3) sub(3)
      have "height t' = height (Node l k h r) \<or> height t' = height (Node l k h r) - 1"
        by (auto simp: max_def split: if_splits)
      with t'(1,2) l'(1) False eq show ?thesis by (simp del: balance.simps)
    qed
  qed
qed

text \<open>
  Claim C1.  After every mutating operation on an AVL tree every node should have
  children whose heights differ by at most one, and a cached height equal to the
  recursive height.  \<^verbatim>\<open>insert\<close> and \<^verbatim>\<open>remove\<close> keep this invariant (lemmas
  \<open>AVLTree_insert_AVL\<close> and \<open>AVLTree_remove_AVL\<close>); \<^verbatim>\<open>removeMax\<close> and \<^verbatim>\<open>removeMin\<close> do
  not, and the theorem below evaluates them on three trees.  They call \<^verbatim>\<open>remove\<close> on the slot
  \<^verbatim>\<open>findMax\<close> or \<^verbatim>\<open>findMin\<close> returns, so no frame of \<^verbatim>\<open>remove\<close> exists for the nodes
  above that slot: their heights are not recomputed and they are not rebalanced.
  Inserting \<open>3, 2, 4, 1\<close> gives an AVL tree; \<^verbatim>\<open>removeMax\<close> deletes the node \<open>4\<close> and
  leaves the root \<open>3\<close> with a left subtree of height \<open>2\<close> and no right subtree, while
  \<^verbatim>\<open>remove(4)\<close> on the same tree rotates and leaves a balanced tree.  Likewise
  \<^verbatim>\<open>removeMin\<close> after inserting \<open>2, 1, 3, 4\<close>.  On the tree of \<open>1\<close> with right child
  \<open>2\<close>, \<^verbatim>\<open>removeMax\<close> leaves the single node \<open>1\<close> with the cached height \<open>2\<close>.
\<close>

theorem C1_removeMax_removeMin_break_AVL_inv:
  "AVLTree_shl_all Null [3, 2, 4, 1 :: nat]
     = Some (Node (Node (Node Null 1 1 Null) 2 2 Null) 3 3 (Node Null 4 1 Null)) \<and>
   AVL_inv (Node (Node (Node Null 1 1 Null) 2 2 Null) (3::nat) 3 (Node Null 4 1 Null)) \<and>
   AVLTree_removeMax (Node (Node (Node Null 1 1 Null) 2 2 Null) (3::nat) 3 (Node Null 4 1 Null))
     = Some (Some 4, Node (Node (Node Null 1 1 Null) 2 2 Null) 3 3 Null) \<and>
   \<not> balanced (Node (Node (Node Null 1 1 Null) 2 2 Null) (3::nat) 3 Null) \<and>
   \<not> AVL_inv (Node (Node (Node Null 1 1 Null) 2 2 Null) (3::nat) 3 Null) \<and>
   AVLTree_remove (Node (Node (Node Null 1 1 Null) 2 2 Null) (3::nat) 3 (Node Null 4 1 Null)) 4
     = Some (Some 4, Node (Node Null 1 1 Null) 2 2 (Node Null 3 1 Null)) \<and>
   AVL_inv (Node (Node Null 1 1 Null) (2::nat) 2 (Node Null 3 1 Null)) \<and>
   AVLTree_shl_all Null [2, 1, 3, 4 :: nat]
     = Some (Node (Node Null 1 1 Null) 2 3 (Node Null 3 2 (Node Null 4 1 Null))) \<and>
   AVL_inv (Node (Node Null 1 1 Null) (2::nat) 3 (Node Null 3 2 (Node Null 4 1 Null))) \<and>
   AVLTree_removeMin (Node (Node Null 1 1 Null) (2::nat) 3 (Node Null 3 2 (Node Null 4 1 Null)))
     = Some (Some 1, Node Null 2 3 (Node Null 3 2 (Node Null 4 1 Null))) \<and>
   \<not> balanced (Node Null (2::nat) 3 (Node Null 3 2 (Node Null 4 1 Null))) \<and>
   AVLTree_shl_all Null [1, 2 :: nat] = Some (Node Null 1 2 (Node Null 2 1 Null)) \<and>
   AVLTree_removeMax (Node Null (1::nat) 2 (Node Null 2 1 Null))
     = Some (Some 2, Node Null 1 2 Null) \<and>
   \<not> heights_ok (Node Null (1::nat) 2 Null)"
  by (simp add: AVLTree_shl_def AVL_inv_def AVLTree_removeMax_def AVLTree_removeMin_def)



section \<open>Reachable trees\<close>

lemma filter_neq_id: "key \<notin> set xs \<Longrightarrow> filter (\<lambda>x. x \<noteq> key) xs = xs"
  by (induction xs) auto

lemma removeByCopy_inorder:
  "ordered t \<Longrightarrow> removeByCopy t key = Some (res, t') \<Longrightarrow>
   inorder t' = filter (\<lambda>x. x \<noteq> key) (inorder t) \<and>
   res = (if key \<in> set (inorder t) then Some key else None)"
proof (induction t arbitrary: res t')
  case Null
  then show ?case by simp
next
  case (Node l k h r)
  from Node.prems(1) have o: "ordered l" "ordered r"
    "\<forall>x \<in> set (inorder l). x < k" "\<forall>x \<in> set (inorder r). k < x"
    by simp_all
  consider (lt) "key < k" | (gt) "k < key" | (eq) "key = k" using less_linear[of key k] by blast
  then show ?case
  proof cases
    case lt
    obtain a la where l: "removeByCopy l key = Some (a, la)"
      using removeByCopy_Some[of l key] by auto
    from lt o(4) have "key \<notin> set (k # inorder r)" by auto
    from filter_neq_id[OF this] this Node.IH(1)[OF o(1) l] lt l Node.prems(2)
    show ?thesis by auto
  next
    case gt
    then have ngt: "\<not> key < k" by simp
    obtain a ra where r: "removeByCopy r key = Some (a, ra)"
      using removeByCopy_Some[of r key] by auto
    from gt o(3) have nin: "key \<notin> set (inorder l)" "key \<noteq> k" by auto
    from filter_neq_id[OF nin(1)] nin Node.IH(2)[OF o(2) r] gt ngt r Node.prems(2)
    show ?thesis by auto
  next
    case eq
    with o(3,4) have nin: "key \<notin> set (inorder l)" "key \<notin> set (inorder r)" by auto
    note f = filter_neq_id[OF nin(1)] filter_neq_id[OF nin(2)]
    show ?thesis
    proof (cases "l = Null")
      case True
      with eq f Node.prems(2) show ?thesis by auto
    next
      case False
      from findMax_Some[OF this] obtain ml mk mh where m: "findMax l = Some (Node ml mk mh Null)"
        by blast
      from inorder_findMax[OF m] obtain pre where
        pre: "inorder l = pre @ inorder (Node ml mk mh Null)"
             "\<forall>v. inorder (findMax_assign l v) = pre @ inorder v"
        by blast
      from eq False m Node.prems(2) have
        res: "res = Some k" "t' = Node (findMax_assign l ml) mk h r"
        by auto
      with pre have 1: "inorder t' = inorder l @ inorder r" by simp
      from f eq have 2: "filter (\<lambda>x. x \<noteq> key) (inorder (Node l k h r)) = inorder l @ inorder r"
        by simp
      from 1 2 res(1) eq show ?thesis by simp
    qed
  qed
qed

lemma ordered_filter:
  "ordered t \<Longrightarrow> inorder t' = filter P (inorder t) \<Longrightarrow> ordered t'"
  by (simp add: ordered_iff_sorted sorted_wrt_filter)

lemma ordered_tl:
  "ordered t \<Longrightarrow> inorder t = k # inorder t' \<Longrightarrow> ordered t'"
  by (simp add: ordered_iff_sorted)

lemma ordered_butlast:
  "ordered t \<Longrightarrow> inorder t = inorder t' @ [k] \<Longrightarrow> ordered t'"
  by (simp add: ordered_iff_sorted sorted_wrt_append)

text \<open>
  Every tree a caller can build satisfies the ordering invariant, and every such AVL
  tree has positive cached heights: the hypotheses of the claims above hold of every
  tree a caller can hold.
\<close>

lemma BSTree_reachable_ordered: "BSTree_reachable t \<Longrightarrow> ordered t"
proof (induction rule: BSTree_reachable.induct)
  case empty
  show ?case by simp
next
  case (insert t key ok t')
  from BSTree_insert_spec[OF insert.hyps(2)] insert.IH show ?case by simp
next
  case (remove t key mode res t')
  obtain rc tc where c: "removeByCopy t key = Some (rc, tc)"
    using removeByCopy_Some[of t key] by auto
  obtain rf tf where f: "removeByFusion t key = Some (rf, tf)"
    using removeByFusion_Some[of t key] by auto
  from removeByCopy_inorder[OF remove.IH c] removeByCopy_eq_Fusion[OF c f]
  have "inorder tc = filter (\<lambda>x. x \<noteq> key) (inorder t)"
    "inorder tf = filter (\<lambda>x. x \<noteq> key) (inorder t)"
    by simp_all
  with remove.IH have "ordered tc" "ordered tf" by (auto intro: ordered_filter)
  with c f remove.hyps(2) show ?case by (cases mode) auto
next
  case (removeMax t res t')
  show ?case
  proof (cases "t = Null")
    case True
    with removeMax.hyps(2) show ?thesis by (simp add: BSTree_removeMax_def)
  next
    case False
    from BSTree_removeMax_spec[OF False] removeMax.hyps(2) removeMax.IH
    show ?thesis by (auto intro: ordered_butlast)
  qed
next
  case (removeMin t res t')
  show ?case
  proof (cases "t = Null")
    case True
    with removeMin.hyps(2) show ?thesis by (simp add: BSTree_removeMin_def)
  next
    case False
    from BSTree_removeMin_spec[OF False] removeMin.hyps(2) removeMin.IH
    show ?thesis by (auto intro: ordered_tl)
  qed
qed

lemma AVLTree_reachable_ordered_pos:
  "AVLTree_reachable t \<Longrightarrow> ordered t \<and> heights_pos t"
proof (induction rule: AVLTree_reachable.induct)
  case empty
  show ?case by simp
next
  case (insert t key ok t')
  then have "heights_pos t" by simp
  from AVLTree_insert_pos[OF this, of key] insert show ?case by auto
next
  case (remove t key res t')
  then have "heights_pos t" by simp
  from AVLTree_remove_pos[OF this, of key] remove show ?case
    by (auto intro: ordered_filter)
next
  case (removeMax t res t')
  show ?case
  proof (cases "t = Null")
    case True
    with removeMax.hyps(2) show ?thesis by (simp add: AVLTree_removeMax_def)
  next
    case False
    from removeMax.IH have "heights_pos t" by simp
    from AVLTree_removeMax_spec[OF False this] removeMax.hyps(2) removeMax.IH
    show ?thesis by (auto intro: ordered_butlast)
  qed
next
  case (removeMin t res t')
  show ?case
  proof (cases "t = Null")
    case True
    with removeMin.hyps(2) show ?thesis by (simp add: AVLTree_removeMin_def)
  next
    case False
    from AVLTree_removeMin_spec[OF False] removeMin.hyps(2) removeMin.IH
    show ?thesis by (auto intro: ordered_tl)
  qed
qed

end
